theory Spec2Isabelle
  imports Main "HOL-Library.Sublist"
begin

section \<open>Characters, lines and escaping\<close>

text \<open>
  Python strings are sequences of code points. Here a string is a \<open>char list\<close> and a
  character is a code point below 256 (Latin-1). Sets of characters are lists of
  inclusive ranges of code points.
\<close>

definition NL :: char where
  "NL = CHR 0x0A"

definition in_ranges :: "(nat \<times> nat) list \<Rightarrow> char \<Rightarrow> bool" where
  "in_ranges rs c = list_ex (\<lambda>r. fst r \<le> of_char c \<and> of_char c \<le> snd r) rs"

definition digit_ranges :: "(nat \<times> nat) list" where
  "digit_ranges = [(0x30, 0x39)]"

text \<open>
  The code points below 256 for which \<open>str.isspace\<close> holds; the class \<open>\s\<close> of a
  \<open>str\<close> pattern accepts the same characters.
\<close>

definition space_ranges :: "(nat \<times> nat) list" where
  "space_ranges = [(0x09, 0x0D), (0x1C, 0x20), (0x85, 0x85), (0xA0, 0xA0)]"

definition is_space :: "char \<Rightarrow> bool" where
  "is_space c = in_ranges space_ranges c"

text \<open>\<open>str.isspace\<close>: at least one character, and all of them whitespace.\<close>

definition isspace :: "string \<Rightarrow> bool" where
  "isspace s = (s \<noteq> [] \<and> list_all is_space s)"

text \<open>\<open>s.rstrip("\n")\<close> and \<open>s.strip()\<close>.\<close>

definition rstrip_nl :: "string \<Rightarrow> string" where
  "rstrip_nl s = rev (dropWhile (\<lambda>c. c = NL) (rev s))"

definition strip :: "string \<Rightarrow> string" where
  "strip s = rev (dropWhile is_space (rev (dropWhile is_space s)))"

text \<open>class Line: a line that remembers where it came from.\<close>

record Line =
  line_text :: string
  line_number :: nat
  line_file :: string

definition Line_init :: "string \<Rightarrow> nat \<Rightarrow> string \<Rightarrow> Line" where
  "Line_init t n f = \<lparr>line_text = t, line_number = n, line_file = f\<rparr>"

definition subline :: "Line \<Rightarrow> string \<Rightarrow> Line" where
  "subline l t = \<lparr>line_text = t, line_number = line_number l, line_file = line_file l\<rparr>"

definition is_empty_space :: "Line \<Rightarrow> bool" where
  "is_empty_space l = (line_text l = [] \<or> isspace (line_text l))"

text \<open>
  \<open>esc\<close>: the table of named escapes first, then \<open>\xNN\<close> for the characters of a
  Unicode category starting with C (below 256: the controls 0x00-0x1F and 0x7F-0x9F,
  and the soft hyphen 0xAD), every other character as it is.
\<close>

definition hex_digit :: "nat \<Rightarrow> char" where
  "hex_digit n = (''0123456789abcdef'') ! (n mod 16)"

definition is_category_C :: "char \<Rightarrow> bool" where
  "is_category_C c = (let n = (of_char c :: nat) in n < 0x20 \<or> (0x7F \<le> n \<and> n \<le> 0x9F) \<or> n = 0xAD)"

definition esc :: "char \<Rightarrow> string" where
  "esc m =
    (if m = NL then [CHR 0x5C, CHR ''n'']
     else if m = CHR 0x5C then [CHR 0x5C, CHR 0x5C]
     else if m = CHR 0x27 then [CHR 0x5C, CHR 0x27]
     else if m = CHR 0x22 then [CHR 0x5C, CHR 0x22]
     else if m = CHR 0x07 then [CHR 0x5C, CHR ''a'']
     else if m = CHR 0x08 then [CHR 0x5C, CHR ''b'']
     else if m = CHR 0x0C then [CHR 0x5C, CHR ''f'']
     else if m = CHR 0x0D then [CHR 0x5C, CHR ''r'']
     else if m = CHR 0x09 then [CHR 0x5C, CHR ''t'']
     else if m = CHR 0x0B then [CHR 0x5C, CHR ''v'']
     else if is_category_C m
       then [CHR 0x5C, CHR ''x'', hex_digit (of_char m div 16), hex_digit (of_char m)]
     else [m])"

definition escape_string :: "string \<Rightarrow> string" where
  "escape_string s = concat (map esc s)"

definition escaped_text :: "Line \<Rightarrow> string" where
  "escaped_text l = escape_string (rstrip_nl (line_text l))"

section \<open>Regular expressions\<close>

text \<open>
  Python's \<open>re\<close> module is a library, not part of the repository. It is modelled here
  for a fragment of the syntax of Python 3, on \<open>str\<close> patterns without flags: literals
  and escaped punctuation, \<open>.\<close>, the classes \<open>\d\<close>, \<open>\s\<close> and their complements,
  character sets, the anchors \<open>^\<close> and \<open>$\<close>, alternation, the repetitions \<open>*\<close>,
  \<open>+\<close>, \<open>?\<close> and their lazy forms, and plain, non-capturing and named groups. A pattern
  outside the fragment is reported as \<open>Unmodelled\<close>, one that Python rejects as
  \<open>ReError\<close>.

  A non-capturing group is only a parenthesis and leaves no node in the compiled form. A
  character set is a negation flag and a list of inclusive ranges of code points. The
  flag of a repetition says whether it is greedy.
\<close>

datatype regex =
    Empty
  | Lit char
  | AnyChar
  | InSet bool "(nat \<times> nat) list"
  | Bol
  | Eol
  | Cat regex regex
  | Alt regex regex
  | Star bool regex
  | Plus bool regex
  | Group "string option" regex

text \<open>Capturing groups are numbered by their opening parentheses, from 1.\<close>

fun ngroups :: "regex \<Rightarrow> nat" where
  "ngroups (Cat a b) = ngroups a + ngroups b"
| "ngroups (Alt a b) = ngroups a + ngroups b"
| "ngroups (Star g a) = ngroups a"
| "ngroups (Plus g a) = ngroups a"
| "ngroups (Group nm a) = Suc (ngroups a)"
| "ngroups r = 0"

fun group_names :: "regex \<Rightarrow> string list" where
  "group_names (Cat a b) = group_names a @ group_names b"
| "group_names (Alt a b) = group_names a @ group_names b"
| "group_names (Star g a) = group_names a"
| "group_names (Plus g a) = group_names a"
| "group_names (Group nm a) = (case nm of None \<Rightarrow> [] | Some x \<Rightarrow> [x]) @ group_names a"
| "group_names r = []"

fun rweight :: "regex \<Rightarrow> nat" where
  "rweight (Cat a b) = Suc (rweight a + rweight b)"
| "rweight (Alt a b) = Suc (rweight a + rweight b)"
| "rweight (Star g a) = Suc (rweight a)"
| "rweight (Plus g a) = Suc (Suc (rweight a))"
| "rweight (Group nm a) = Suc (rweight a)"
| "rweight r = 0"

subsection \<open>Matching\<close>

text \<open>
  A match state is the rest of the subject and the groups captured so far, the latest
  first. \<open>re_run n k r\<close> lists the states in which \<open>r\<close> can end, in the order in which
  a backtracking matcher finds them (the first alternative first, the longest greedy
  repetition first); \<open>n\<close> is the length of the whole subject, and \<open>k\<close> the number of
  groups opened before \<open>r\<close>. \<open>^\<close> holds at the start of the subject, \<open>$\<close> at its
  end and before a final newline. A repetition goes on only after an iteration that
  consumed something.
\<close>

type_synonym mstate = "string \<times> (nat \<times> string) list"

text \<open>
  The results of a repetition that can stop in \<open>st\<close> or go on to \<open>further\<close>: a greedy
  one tries to go on first, a lazy one to stop.
\<close>

definition star_results :: "bool \<Rightarrow> mstate \<Rightarrow> mstate list \<Rightarrow> mstate list" where
  "star_results g st further = (if g then further @ [st] else st # further)"

function re_run :: "nat \<Rightarrow> nat \<Rightarrow> regex \<Rightarrow> mstate \<Rightarrow> mstate list" where
  "re_run n k Empty st = [st]"
| "re_run n k (Lit c) st =
     (case fst st of [] \<Rightarrow> [] | x # xs \<Rightarrow> if x = c then [(xs, snd st)] else [])"
| "re_run n k AnyChar st =
     (case fst st of [] \<Rightarrow> [] | x # xs \<Rightarrow> if x \<noteq> NL then [(xs, snd st)] else [])"
| "re_run n k (InSet neg rs) st =
     (case fst st of [] \<Rightarrow> []
      | x # xs \<Rightarrow> if in_ranges rs x \<noteq> neg then [(xs, snd st)] else [])"
| "re_run n k Bol st = (if length (fst st) = n then [st] else [])"
| "re_run n k Eol st = (if fst st = [] \<or> fst st = [NL] then [st] else [])"
| "re_run n k (Cat a b) st = concat (map (re_run n (k + ngroups a) b) (re_run n k a st))"
| "re_run n k (Alt a b) st = re_run n k a st @ re_run n (k + ngroups a) b st"
| "re_run n k (Star g a) st =
     star_results g st
       (concat (map (re_run n k (Star g a))
                  (filter (\<lambda>q. length (fst q) < length (fst st)) (re_run n k a st))))"
| "re_run n k (Plus g a) st = concat (map (re_run n k (Star g a)) (re_run n k a st))"
| "re_run n k (Group nm a) st =
     map (\<lambda>q. (fst q, (Suc k, take (length (fst st) - length (fst q)) (fst st)) # snd q))
       (re_run n (Suc k) a st)"
  by pat_completeness auto
termination
  by (relation "measures [\<lambda>(n, k, r, st). rweight r, \<lambda>(n, k, r, st). length (fst st)]") auto

declare re_run.simps(9) [simp del]

text \<open>\<open>regex.match(s)\<close>: the first way to match at the start of \<open>s\<close>, with its groups.\<close>

definition re_match :: "regex \<Rightarrow> string \<Rightarrow> (nat \<times> string) list option" where
  "re_match r s = (case re_run (length s) 0 r (s, []) of [] \<Rightarrow> None | q # _ \<Rightarrow> Some (snd q))"

text \<open>\<open>m.group(i)\<close>; None when the group took no part in the match.\<close>

definition group :: "(nat \<times> string) list \<Rightarrow> nat \<Rightarrow> string option" where
  "group m i = map_of m i"

definition group_text :: "(nat \<times> string) list \<Rightarrow> nat \<Rightarrow> string" where
  "group_text m i = (case group m i of None \<Rightarrow> [] | Some t \<Rightarrow> t)"

text \<open>
  \<open>regex.sub(repl, s)\<close> with a function \<open>repl\<close>, and \<open>regex.split(s)\<close>, for a
  pattern that matches no empty text: the subject is scanned from the left, and after a
  match the scan goes on behind it. \<open>split\<close> yields the text before each match and the
  text of each of its groups, and the text behind the last match.
\<close>

function re_sub_from ::
  "regex \<Rightarrow> ((nat \<times> string) list \<Rightarrow> string) \<Rightarrow> nat \<Rightarrow> string \<Rightarrow> string" where
  "re_sub_from r repl n [] = []"
| "re_sub_from r repl n (x # xs) =
     (case re_run n 0 r (x # xs, []) of
        [] \<Rightarrow> x # re_sub_from r repl n xs
      | q # _ \<Rightarrow>
          if length (fst q) < length (x # xs)
          then repl (snd q) @ re_sub_from r repl n (fst q)
          else x # re_sub_from r repl n xs)"
  by pat_completeness auto
termination
  by (relation "measure (\<lambda>(r, repl, n, s). length s)") auto

definition re_sub :: "regex \<Rightarrow> ((nat \<times> string) list \<Rightarrow> string) \<Rightarrow> string \<Rightarrow> string" where
  "re_sub r repl s = re_sub_from r repl (length s) s"

function re_split_from :: "regex \<Rightarrow> nat \<Rightarrow> string \<Rightarrow> string \<Rightarrow> string list" where
  "re_split_from r n acc [] = [rev acc]"
| "re_split_from r n acc (x # xs) =
     (case re_run n 0 r (x # xs, []) of
        [] \<Rightarrow> re_split_from r n (x # acc) xs
      | q # _ \<Rightarrow>
          if length (fst q) < length (x # xs)
          then rev acc # map (group_text (snd q)) [1..<Suc (ngroups r)]
                 @ re_split_from r n [] (fst q)
          else re_split_from r n (x # acc) xs)"
  by pat_completeness auto
termination
  by (relation "measure (\<lambda>(r, n, acc, s). length s)") auto

definition re_split :: "regex \<Rightarrow> string \<Rightarrow> string list" where
  "re_split r s = re_split_from r (length s) [] s"

subsection \<open>Compiling a pattern\<close>

datatype 'a parsed = Parsed 'a | ReError | Unmodelled

text \<open>
  The parser reads the pattern one character at a time, as \<open>sre_parse\<close> does. The
  stack holds a frame for the pattern itself and one for every group that is still
  open, the innermost first; a frame has the alternatives that are complete and the
  items of the current one, both latest first. A repetition character applies to
  the item before it: \<open>Fresh\<close> is a repetition that a \<open>?\<close> can still make lazy.
\<close>

datatype quant = QStar | QPlus | QOpt

datatype item = Atom regex | Anchor regex | Fresh quant regex | Final regex

datatype gkind = Top | NonCapturing | Capturing "string option"

datatype frame = Frame gkind "regex list" "item list"

datatype setitem = SLit char | SCls "(nat \<times> nat) list"

datatype pmode =
    Normal
  | Escape
  | Open
  | OpenQ
  | OpenQP
  | GroupName string
  | SetOpen
  | SetItem bool "(nat \<times> nat) list"
  | SetEsc bool "(nat \<times> nat) list"
  | SetHave bool "(nat \<times> nat) list" setitem
  | SetDash bool "(nat \<times> nat) list" setitem
  | SetDashEsc bool "(nat \<times> nat) list" setitem

type_synonym pstate = "pmode \<times> frame list"

fun build_rep :: "quant \<Rightarrow> bool \<Rightarrow> regex \<Rightarrow> regex" where
  "build_rep QStar g r = Star g r"
| "build_rep QPlus g r = Plus g r"
| "build_rep QOpt g r = (if g then Alt r Empty else Alt Empty r)"

fun item_regex :: "item \<Rightarrow> regex" where
  "item_regex (Atom r) = r"
| "item_regex (Anchor r) = r"
| "item_regex (Fresh q r) = build_rep q True r"
| "item_regex (Final r) = r"

fun seq_regex :: "regex list \<Rightarrow> regex" where
  "seq_regex [] = Empty"
| "seq_regex [r] = r"
| "seq_regex (r # rs) = Cat r (seq_regex rs)"

fun alt_regex :: "regex list \<Rightarrow> regex" where
  "alt_regex [] = Empty"
| "alt_regex [r] = r"
| "alt_regex (r # rs) = Alt r (alt_regex rs)"

fun frame_regex :: "frame \<Rightarrow> regex" where
  "frame_regex (Frame kd alts items) =
     alt_regex (rev (seq_regex (map item_regex (rev items)) # alts))"

fun push_item :: "item \<Rightarrow> frame list \<Rightarrow> frame list" where
  "push_item it [] = []"
| "push_item it (Frame kd alts items # fs) = Frame kd alts (it # items) # fs"

definition BS :: char where
  "BS = CHR 0x5C"

definition is_ascii_alnum :: "char \<Rightarrow> bool" where
  "is_ascii_alnum c = in_ranges [(0x30, 0x39), (0x41, 0x5A), (0x61, 0x7A)] c"

text \<open>An identifier of ASCII characters: the name of a group.\<close>

definition is_group_name :: "string \<Rightarrow> bool" where
  "is_group_name s =
    (s \<noteq> [] \<and> \<not> in_ranges digit_ranges (hd s) \<and>
     list_all (\<lambda>c. is_ascii_alnum c \<or> c = CHR ''_'') s)"

text \<open>The escapes that stand for one character, outside and inside a set.\<close>

definition control_escape :: "char \<Rightarrow> char option" where
  "control_escape c =
    (if c = CHR ''n'' then Some (CHR 0x0A)
     else if c = CHR ''t'' then Some (CHR 0x09)
     else if c = CHR ''r'' then Some (CHR 0x0D)
     else if c = CHR ''f'' then Some (CHR 0x0C)
     else if c = CHR ''v'' then Some (CHR 0x0B)
     else if c = CHR ''a'' then Some (CHR 0x07)
     else None)"

text \<open>
  The character after a backslash, outside a set: a class, a control character, or
  the character itself when it is no ASCII letter or digit. The other escapes of
  letters and digits (boundaries, back references, numeric escapes) are not modelled.
\<close>

definition escape_item :: "char \<Rightarrow> item parsed" where
  "escape_item c =
    (if c = CHR ''d'' then Parsed (Atom (InSet False digit_ranges))
     else if c = CHR ''D'' then Parsed (Atom (InSet True digit_ranges))
     else if c = CHR ''s'' then Parsed (Atom (InSet False space_ranges))
     else if c = CHR ''S'' then Parsed (Atom (InSet True space_ranges))
     else (case control_escape c of
             Some x \<Rightarrow> Parsed (Atom (Lit x))
           | None \<Rightarrow> if is_ascii_alnum c then Unmodelled else Parsed (Atom (Lit c))))"

text \<open>Inside a set \<open>\b\<close> is the backspace.\<close>

definition class_escape :: "char \<Rightarrow> setitem parsed" where
  "class_escape c =
    (if c = CHR ''d'' then Parsed (SCls digit_ranges)
     else if c = CHR ''s'' then Parsed (SCls space_ranges)
     else if c = CHR ''b'' then Parsed (SLit (CHR 0x08))
     else (case control_escape c of
             Some x \<Rightarrow> Parsed (SLit x)
           | None \<Rightarrow> if is_ascii_alnum c then Unmodelled else Parsed (SLit c)))"

fun setitem_ranges :: "setitem \<Rightarrow> (nat \<times> nat) list" where
  "setitem_ranges (SLit c) = [(of_char c, of_char c)]"
| "setitem_ranges (SCls rs) = rs"

text \<open>The range from \<open>code1\<close> to \<open>code2\<close>: both are characters, in order.\<close>

fun set_range :: "setitem \<Rightarrow> setitem \<Rightarrow> (nat \<times> nat) parsed" where
  "set_range (SLit lo) (SLit hi) =
     (if (of_char hi :: nat) < of_char lo then ReError else Parsed (of_char lo, of_char hi))"
| "set_range a b = ReError"

text \<open>A repetition character after the items \<open>its\<close> of the current alternative.\<close>

fun repeat_item :: "quant \<Rightarrow> item list \<Rightarrow> item list parsed" where
  "repeat_item q [] = ReError"
| "repeat_item q (Anchor r # its) = ReError"
| "repeat_item q (Atom r # its) = Parsed (Fresh q r # its)"
| "repeat_item q (Fresh q' r # its) =
     (case q of
        QOpt \<Rightarrow> Parsed (Final (build_rep q' False r) # its)
      | QPlus \<Rightarrow> Unmodelled
      | QStar \<Rightarrow> ReError)"
| "repeat_item q (Final r # its) = ReError"

fun repeat_step :: "quant \<Rightarrow> frame list \<Rightarrow> pstate parsed" where
  "repeat_step q [] = Unmodelled"
| "repeat_step q (Frame kd alts items # fs) =
     (case repeat_item q items of
        Parsed items' \<Rightarrow> Parsed (Normal, Frame kd alts items' # fs)
      | ReError \<Rightarrow> ReError
      | Unmodelled \<Rightarrow> Unmodelled)"

text \<open>A closing parenthesis ends the innermost open group, which becomes an item.\<close>

fun close_group :: "frame list \<Rightarrow> pstate parsed" where
  "close_group (Frame NonCapturing alts items # fs) =
     Parsed (Normal, push_item (Atom (frame_regex (Frame NonCapturing alts items))) fs)"
| "close_group (Frame (Capturing nm) alts items # fs) =
     Parsed (Normal, push_item (Atom (Group nm (frame_regex (Frame (Capturing nm) alts items)))) fs)"
| "close_group fs = ReError"

fun next_alt :: "frame list \<Rightarrow> frame list" where
  "next_alt [] = []"
| "next_alt (Frame kd alts items # fs) =
     Frame kd (seq_regex (map item_regex (rev items)) # alts) [] # fs"

definition normal_step :: "frame list \<Rightarrow> char \<Rightarrow> pstate parsed" where
  "normal_step fs c =
    (if c = BS then Parsed (Escape, fs)
     else if c = CHR ''.'' then Parsed (Normal, push_item (Atom AnyChar) fs)
     else if c = CHR ''^'' then Parsed (Normal, push_item (Anchor Bol) fs)
     else if c = CHR ''$'' then Parsed (Normal, push_item (Anchor Eol) fs)
     else if c = CHR ''['' then Parsed (SetOpen, fs)
     else if c = CHR ''('' then Parsed (Open, fs)
     else if c = CHR '')'' then close_group fs
     else if c = CHR ''|'' then Parsed (Normal, next_alt fs)
     else if c = CHR ''*'' then repeat_step QStar fs
     else if c = CHR ''+'' then repeat_step QPlus fs
     else if c = CHR ''?'' then repeat_step QOpt fs
     else if c = CHR ''{'' then Unmodelled
     else Parsed (Normal, push_item (Atom (Lit c)) fs))"

definition close_set :: "bool \<Rightarrow> (nat \<times> nat) list \<Rightarrow> frame list \<Rightarrow> pstate parsed" where
  "close_set neg acc fs = Parsed (Normal, push_item (Atom (InSet neg (rev acc))) fs)"

text \<open>
  The next item of a set; \<open>acc\<close> holds the ranges read so far, latest first. A
  closing bracket ends the set unless it is its first item.
\<close>

definition set_item_step :: "bool \<Rightarrow> (nat \<times> nat) list \<Rightarrow> frame list \<Rightarrow> char \<Rightarrow> pstate parsed" where
  "set_item_step neg acc fs c =
    (if c = CHR '']'' \<and> acc \<noteq> [] then close_set neg acc fs
     else if c = BS then Parsed (SetEsc neg acc, fs)
     else Parsed (SetHave neg acc (SLit c), fs))"

definition set_range_step ::
  "bool \<Rightarrow> (nat \<times> nat) list \<Rightarrow> setitem \<Rightarrow> setitem \<Rightarrow> frame list \<Rightarrow> pstate parsed" where
  "set_range_step neg acc code1 code2 fs =
    (case set_range code1 code2 of
       Parsed r \<Rightarrow> Parsed (SetItem neg (r # acc), fs)
     | ReError \<Rightarrow> ReError
     | Unmodelled \<Rightarrow> Unmodelled)"

fun step :: "pstate \<Rightarrow> char \<Rightarrow> pstate parsed" where
  "step (Normal, fs) c = normal_step fs c"
| "step (Escape, fs) c =
     (case escape_item c of
        Parsed it \<Rightarrow> Parsed (Normal, push_item it fs)
      | ReError \<Rightarrow> ReError
      | Unmodelled \<Rightarrow> Unmodelled)"
| "step (Open, fs) c =
     (if c = CHR ''?'' then Parsed (OpenQ, fs)
      else normal_step (Frame (Capturing None) [] [] # fs) c)"
| "step (OpenQ, fs) c =
     (if c = CHR '':'' then Parsed (Normal, Frame NonCapturing [] [] # fs)
      else if c = CHR ''P'' then Parsed (OpenQP, fs)
      else Unmodelled)"
| "step (OpenQP, fs) c =
     (if c = CHR ''<'' then Parsed (GroupName [], fs) else Unmodelled)"
| "step (GroupName nm, fs) c =
     (if c = CHR ''>'' then
        (if is_group_name (rev nm) then Parsed (Normal, Frame (Capturing (Some (rev nm))) [] [] # fs)
         else if list_all (\<lambda>x. (of_char x :: nat) < 128) nm then ReError
         else Unmodelled)
      else Parsed (GroupName (c # nm), fs))"
| "step (SetOpen, fs) c =
     (if c = CHR ''^'' then Parsed (SetItem True [], fs) else set_item_step False [] fs c)"
| "step (SetItem neg acc, fs) c = set_item_step neg acc fs c"
| "step (SetEsc neg acc, fs) c =
     (case class_escape c of
        Parsed code1 \<Rightarrow> Parsed (SetHave neg acc code1, fs)
      | ReError \<Rightarrow> ReError
      | Unmodelled \<Rightarrow> Unmodelled)"
| "step (SetHave neg acc code1, fs) c =
     (if c = CHR ''-'' then Parsed (SetDash neg acc code1, fs)
      else set_item_step neg (rev (setitem_ranges code1) @ acc) fs c)"
| "step (SetDash neg acc code1, fs) c =
     (if c = CHR '']'' then
        close_set neg ((0x2D, 0x2D) # rev (setitem_ranges code1) @ acc) fs
      else if c = BS then Parsed (SetDashEsc neg acc code1, fs)
      else set_range_step neg acc code1 (SLit c) fs)"
| "step (SetDashEsc neg acc code1, fs) c =
     (case class_escape c of
        Parsed code2 \<Rightarrow> set_range_step neg acc code1 code2 fs
      | ReError \<Rightarrow> ReError
      | Unmodelled \<Rightarrow> Unmodelled)"

fun run :: "pstate \<Rightarrow> string \<Rightarrow> pstate parsed" where
  "run st [] = Parsed st"
| "run st (c # cs) =
     (case step st c of
        Parsed st' \<Rightarrow> run st' cs
      | ReError \<Rightarrow> ReError
      | Unmodelled \<Rightarrow> Unmodelled)"

text \<open>
  At the end of the pattern no escape, set or group may be open, and no two groups
  may have the same name.
\<close>

fun finish_parse :: "pstate \<Rightarrow> regex parsed" where
  "finish_parse (Normal, [Frame Top alts items]) =
     (let r = frame_regex (Frame Top alts items)
      in if distinct (group_names r) then Parsed r else ReError)"
| "finish_parse st = ReError"

definition re_compile :: "string \<Rightarrow> regex parsed" where
  "re_compile p =
    (case run (Normal, [Frame Top [] []]) p of
       Parsed st \<Rightarrow> finish_parse st
     | ReError \<Rightarrow> ReError
     | Unmodelled \<Rightarrow> Unmodelled)"

text \<open>
  \<open>re.escape\<close> (Python 3.7 and later): a backslash before each of the special
  characters.
\<close>

definition special_chars :: string where
  "special_chars = ''()[]{}?*+-|^$'' @ [BS] @ ''.&~# '' @
     [CHR 0x09, CHR 0x0A, CHR 0x0D, CHR 0x0B, CHR 0x0C]"

definition re_escape :: "string \<Rightarrow> string" where
  "re_escape s = concat (map (\<lambda>c. if c \<in> set special_chars then [BS, c] else [c]) s)"

text \<open>
  A pattern that the module compiles when it is loaded. Each use below comes with the
  lemma that the pattern does compile.
\<close>

fun compiled :: "regex parsed \<Rightarrow> regex" where
  "compiled (Parsed r) = r"
| "compiled e = InSet False []"

section \<open>The substitution engine\<close>

text \<open>
  \<open>perform_substitution(input_str, subs)\<close>. The dictionary \<open>subs\<close> is the list of its
  items, in the order of insertion; its keys are distinct. \<open>sorted\<close> is stable, also
  with \<open>reverse=True\<close>, and so is \<open>sort_key\<close> on the negated length.
\<close>

definition token_pattern :: string where
  "token_pattern = ''%(%|[a-zA-Z0-9_-]+)''"

definition subs_ordered :: "(string \<times> string) list \<Rightarrow> (string \<times> string) list" where
  "subs_ordered subs = sort_key (\<lambda>s. - int (length (fst s))) subs"

text \<open>The loop of \<open>subber\<close> over the ordered keys.\<close>

fun subber_keys :: "(string \<times> string) list \<Rightarrow> string \<Rightarrow> string" where
  "subber_keys [] text = text"
| "subber_keys ((key, replacement) # rest) text =
     (if prefix key text then replacement @ drop (length key) text
      else subber_keys rest text)"

definition subber :: "(string \<times> string) list \<Rightarrow> (nat \<times> string) list \<Rightarrow> string" where
  "subber ordered m = subber_keys ordered (group_text m 1)"

definition perform_substitution :: "string \<Rightarrow> (string \<times> string) list \<Rightarrow> string" where
  "perform_substitution input_str subs =
     re_sub (compiled (re_compile token_pattern)) (subber (subs_ordered subs)) input_str"

text \<open>The identifier characters of a token, and the longest run of a set of characters.\<close>

definition ident_ranges :: "(nat \<times> nat) list" where
  "ident_ranges = [(0x61, 0x7A), (0x41, 0x5A), (0x30, 0x39), (0x5F, 0x5F), (0x2D, 0x2D)]"

definition is_ident :: "char \<Rightarrow> bool" where
  "is_ident c = in_ranges ident_ranges c"

fun munch :: "(char \<Rightarrow> bool) \<Rightarrow> string \<Rightarrow> (nat \<times> string) list \<Rightarrow> mstate list" where
  "munch P [] c = [([], c)]"
| "munch P (x # xs) c = (if P x then munch P xs c @ [(x # xs, c)] else [(x # xs, c)])"

section \<open>Check commands and failures\<close>

text \<open>class CheckCmd: the directive's line, its type and its compiled pattern.\<close>

record CheckCmd =
  check_line :: Line
  check_type :: string
  check_regex :: regex

text \<open>
  class TestFailure, without the back reference to the test run. The diff is a
  \<open>SequenceMatcher\<close> over the two display sequences, which are kept as they are.
\<close>

record TestFailure =
  tf_line :: "Line option"
  tf_check :: "CheckCmd option"
  error_annotation_lines :: "Line list option"
  diff :: "string list \<times> string list"
  tf_lines :: "Line list"
  tf_checks :: "CheckCmd list"

definition accepts :: "CheckCmd \<Rightarrow> Line \<Rightarrow> bool" where
  "accepts check line = (re_match (check_regex check) (line_text line) \<noteq> None)"

section \<open>The pattern compiler\<close>

text \<open>
  The exceptions of the program: \<open>CheckerError\<close> with its message and line, and the
  library's \<open>re.error\<close>, \<open>ValueError\<close>, \<open>IndexError\<close>, \<open>UnicodeDecodeError\<close> and
  \<open>OSError\<close> where nothing catches them; \<open>NotModelled\<close> stands for a pattern or a
  text outside the modelled fragment.
\<close>

datatype error =
    CheckerError string "Line option"
  | RegexError
  | ValueError
  | IndexError
  | UnicodeDecodeError
  | OSError
  | NotModelled

text \<open>
  \<open>bracket_re\<close> is written with \<open>re.VERBOSE\<close>; without the blanks and comments that
  the flag ignores it is \<^verbatim>\<open>\{\{(.*?)\}\}\<close>.
\<close>

definition bracket_pattern :: string where
  "bracket_pattern = [BS] @ ''{'' @ [BS] @ ''{(.*?)'' @ [BS] @ ''}'' @ [BS] @ ''}''"

definition bracket_re :: regex where
  "bracket_re = compiled (re_compile bracket_pattern)"

text \<open>
  The loop over the pieces: the pieces at even positions are literals and are escaped,
  those at odd positions are regular expressions and must compile.
\<close>

fun pieces_loop :: "Line \<Rightarrow> bool \<Rightarrow> string list \<Rightarrow> string list \<Rightarrow> error + string list" where
  "pieces_loop line is_even re_strings [] = Inr re_strings"
| "pieces_loop line is_even re_strings (piece # pieces) =
     (if is_even then pieces_loop line (\<not> is_even) (re_strings @ [re_escape piece]) pieces
      else
        (case re_compile piece of
           Parsed r \<Rightarrow> pieces_loop line (\<not> is_even) (re_strings @ [piece]) pieces
         | ReError \<Rightarrow>
             Inl (CheckerError (''Invalid regular expression: '' @ [CHR 0x27] @ piece @ [CHR 0x27])
                    (Some line))
         | Unmodelled \<Rightarrow> Inl NotModelled))"

text \<open>The pattern that is compiled in the end, from the checked pieces.\<close>

definition wrap_group :: "string \<Rightarrow> string" where
  "wrap_group s = ''(?:'' @ s @ '')''"

definition anchor_head :: string where
  "anchor_head = ''^'' @ [BS] @ ''s*''"

definition anchor_tail :: string where
  "anchor_tail = [BS] @ ''s*'' @ [BS] @ ''n?$''"

definition full_pattern :: "string list \<Rightarrow> string" where
  "full_pattern re_strings =
     concat ([anchor_head] @ map wrap_group re_strings @ [anchor_tail])"

definition CheckCmd_parse :: "Line \<Rightarrow> string \<Rightarrow> error + CheckCmd" where
  "CheckCmd_parse line checktype =
    (let pieces = re_split bracket_re (line_text line) in
     case pieces_loop line True [] pieces of
       Inl e \<Rightarrow> Inl e
     | Inr re_strings \<Rightarrow>
         (case re_compile (full_pattern re_strings) of
            Parsed full_re \<Rightarrow>
              Inr \<lparr>check_line = line, check_type = checktype, check_regex = full_re\<rparr>
          | ReError \<Rightarrow> Inl RegexError
          | Unmodelled \<Rightarrow> Inl NotModelled))"

text \<open>
  Whether the pattern compiled from a payload accepts a text: the payload on line 1 of a
  fixture, the text on line 1 of the output.
\<close>

definition payload_accepts :: "string \<Rightarrow> string \<Rightarrow> error + bool" where
  "payload_accepts payload t =
    (case CheckCmd_parse \<lparr>line_text = payload, line_number = 1, line_file = ''fixture''\<rparr> ''CHECK'' of
       Inl e \<Rightarrow> Inl e
     | Inr c \<Rightarrow> Inr (accepts c \<lparr>line_text = t, line_number = 1, line_file = ''stdout''\<rparr>))"

section \<open>The stream matcher: the loop\<close>

text \<open>
  The locals of \<open>TestRun.check\<close>. Both queues are reversed lists: the current
  element is the last one, and \<open>pop()\<close> is \<open>butlast\<close>.
\<close>

record check_state =
  lineq :: "Line list"
  checkq :: "CheckCmd list"
  usedlines :: "Line list"
  usedchecks :: "CheckCmd list"
  text1 :: "string list"
  text2 :: "string list"
  mismatches :: "(Line \<times> CheckCmd) list"

text \<open>The main loop: \<open>while lineq and checkq\<close>.\<close>

function check_loop :: "check_state \<Rightarrow> check_state" where
  "check_loop s =
    (if lineq s \<noteq> [] \<and> checkq s \<noteq> [] then
       let line = last (lineq s); check = last (checkq s) in
       if accepts check line then
         check_loop (s\<lparr>text1 := text1 s @ [escaped_text line],
                       usedlines := usedlines s @ [line],
                       text2 := text2 s @ [escaped_text line],
                       usedchecks := usedchecks s @ [check],
                       lineq := butlast (lineq s),
                       checkq := butlast (checkq s)\<rparr>)
       else if is_empty_space line then
         check_loop (s\<lparr>lineq := butlast (lineq s)\<rparr>)
       else
         let etext = escaped_text (check_line check) in
         check_loop (s\<lparr>text1 := text1 s @ [escaped_text line],
                       usedlines := usedlines s @ [line],
                       text2 := text2 s @
                         [if etext \<noteq> escaped_text line then etext else CHR '' '' # etext],
                       usedchecks := usedchecks s @ [check],
                       mismatches := mismatches s @ [(line, check)],
                       lineq := butlast (lineq s),
                       checkq := butlast (checkq s)\<rparr>)
     else s)"
  by pat_completeness auto
termination
  by (relation "measure (\<lambda>s. length (lineq s))") auto

declare check_loop.simps [simp del]

text \<open>Drain empties: \<open>while lineq and lineq[-1].is_empty_space(): lineq.pop()\<close>.\<close>

function drain_empties :: "Line list \<Rightarrow> Line list" where
  "drain_empties q =
    (if q \<noteq> [] \<and> is_empty_space (last q) then drain_empties (butlast q) else q)"
  by pat_completeness auto
termination
  by (relation "measure length") auto

declare drain_empties.simps [simp del]

definition check :: "Line list \<Rightarrow> CheckCmd list \<Rightarrow> TestFailure option" where
  "check lines checks =
    (let s = check_loop \<lparr>lineq = rev lines, checkq = rev checks, usedlines = [],
                          usedchecks = [], text1 = [], text2 = [], mismatches = []\<rparr>;
         lq = drain_empties (lineq s);
         rest = filter (\<lambda>i. \<not> is_empty_space i) (rev lq);
         t1 = text1 s @ map escaped_text rest;
         ul = usedlines s @ rest;
         t2 = text2 s @ map (\<lambda>i. escaped_text (check_line i)) (rev (checkq s));
         uc = usedchecks s @ rev (checkq s)
     in
       if mismatches s \<noteq> [] then
         Some \<lparr>tf_line = Some (fst (hd (mismatches s))),
               tf_check = Some (snd (hd (mismatches s))),
               error_annotation_lines = None, diff = (t1, t2), tf_lines = ul, tf_checks = uc\<rparr>
       else if lq \<noteq> [] then
         Some \<lparr>tf_line = Some (last lq), tf_check = None,
               error_annotation_lines = None, diff = (t1, t2), tf_lines = ul, tf_checks = uc\<rparr>
       else if checkq s \<noteq> [] then
         Some \<lparr>tf_line = None, tf_check = Some (last (checkq s)),
               error_annotation_lines = None, diff = (t1, t2), tf_lines = ul, tf_checks = uc\<rparr>
       else None)"

text \<open>
  The matcher as the specification words it: the earliest unconsumed line and the
  earliest unconsumed pattern are inspected, front to back. The result is the list of
  recorded mismatches, the lines left over and the patterns left over.
\<close>

fun greedy_align ::
  "Line list \<Rightarrow> CheckCmd list \<Rightarrow> (Line \<times> CheckCmd) list \<times> Line list \<times> CheckCmd list" where
  "greedy_align [] cs = ([], [], cs)"
| "greedy_align (l # ls) [] = ([], l # ls, [])"
| "greedy_align (l # ls) (c # cs) =
     (if accepts c l then greedy_align ls cs
      else if is_empty_space l then greedy_align ls (c # cs)
      else (case greedy_align ls cs of (ms, ls', cs') \<Rightarrow> ((l, c) # ms, ls', cs')))"

datatype outcome =
    Success
  | Mismatch Line CheckCmd
  | UnmatchedOutput Line
  | MissingOutput CheckCmd


text \<open>What a result of \<open>check\<close> is anchored at.\<close>

definition outcome_of :: "TestFailure option \<Rightarrow> outcome option" where
  "outcome_of r =
    (case r of
       None \<Rightarrow> Some Success
     | Some f \<Rightarrow>
        (case (tf_line f, tf_check f) of
           (Some l, Some c) \<Rightarrow> Some (Mismatch l c)
         | (Some l, None) \<Rightarrow> Some (UnmatchedOutput l)
         | (None, Some c) \<Rightarrow> Some (MissingOutput c)
         | (None, None) \<Rightarrow> None))"

text \<open>
  What the result of \<open>check\<close> reads of the loop's final state: of the lines left
  in the queue, only those that are not blank.
\<close>

definition observed ::
  "check_state \<Rightarrow> (Line \<times> CheckCmd) list \<times> CheckCmd list \<times> Line list \<times> CheckCmd list \<times>
     string list \<times> string list \<times> Line list" where
  "observed s = (mismatches s, checkq s, usedlines s, usedchecks s, text1 s, text2 s,
     filter (\<lambda>i. \<not> is_empty_space i) (rev (lineq s)))"

definition finish ::
  "(Line \<times> CheckCmd) list \<times> CheckCmd list \<times> Line list \<times> CheckCmd list \<times>
     string list \<times> string list \<times> Line list \<Rightarrow> TestFailure option" where
  "finish ob = (case ob of (ms, cq, ul0, uc0, t10, t20, rest) \<Rightarrow>
     (let t1 = t10 @ map escaped_text rest;
         ul = ul0 @ rest;
         t2 = t20 @ map (\<lambda>i. escaped_text (check_line i)) (rev cq);
         uc = uc0 @ rev cq
     in
       if ms \<noteq> [] then
         Some \<lparr>tf_line = Some (fst (hd ms)),
               tf_check = Some (snd (hd ms)),
               error_annotation_lines = None, diff = (t1, t2), tf_lines = ul, tf_checks = uc\<rparr>
       else if rest \<noteq> [] then
         Some \<lparr>tf_line = Some (hd rest), tf_check = None,
               error_annotation_lines = None, diff = (t1, t2), tf_lines = ul, tf_checks = uc\<rparr>
       else if cq \<noteq> [] then
         Some \<lparr>tf_line = None, tf_check = Some (last cq),
               error_annotation_lines = None, diff = (t1, t2), tf_lines = ul, tf_checks = uc\<rparr>
       else None))"

section \<open>The directive scanner\<close>

text \<open>
  The three directive patterns of the module:
  \<^verbatim>\<open>COMMENT_RE = r'^(?:[^#].*)?#\s*'\<close>, followed by
  \<^verbatim>\<open>RUN:\s+(.*)\n\<close>, \<^verbatim>\<open>CHECK:\s+(.*)\n\<close> or \<^verbatim>\<open>CHECKERR:\s+(.*)\n\<close>.
\<close>

definition COMMENT_RE :: string where
  "COMMENT_RE = ''^(?:[^#].*)?#'' @ [BS] @ ''s*''"

definition directive_pattern :: "string \<Rightarrow> string" where
  "directive_pattern keyword = COMMENT_RE @ keyword @ '':'' @ [BS] @ ''s+(.*)'' @ [BS] @ ''n''"

definition RUN_RE :: regex where
  "RUN_RE = compiled (re_compile (directive_pattern ''RUN''))"

definition CHECK_STDOUT_RE :: regex where
  "CHECK_STDOUT_RE = compiled (re_compile (directive_pattern ''CHECK''))"

definition CHECK_STDERR_RE :: regex where
  "CHECK_STDERR_RE = compiled (re_compile (directive_pattern ''CHECKERR''))"

text \<open>
  Iterating over a text file yields its lines, each with its newline; only the last
  line can be without one. \<open>Line.readfile\<close> numbers them from 1.
\<close>

fun file_lines :: "string \<Rightarrow> string list" where
  "file_lines [] = []"
| "file_lines (c # cs) =
     (if c = NL then [c] # file_lines cs
      else (case file_lines cs of [] \<Rightarrow> [[c]] | l # ls \<Rightarrow> (c # l) # ls))"

fun enumerate_lines :: "nat \<Rightarrow> string \<Rightarrow> string list \<Rightarrow> Line list" where
  "enumerate_lines idx name [] = []"
| "enumerate_lines idx name (t # ts) =
     \<lparr>line_text = t, line_number = idx + 1, line_file = name\<rparr> # enumerate_lines (idx + 1) name ts"

definition readfile :: "string list \<Rightarrow> string \<Rightarrow> Line list" where
  "readfile file name = enumerate_lines 0 name file"

text \<open>\<open>group1s\<close>: the sublines with group 1 of the lines that match.\<close>

fun group1s :: "regex \<Rightarrow> Line list \<Rightarrow> Line list" where
  "group1s r [] = []"
| "group1s r (l # ls) =
     (case re_match r (line_text l) of
        None \<Rightarrow> group1s r ls
      | Some m \<Rightarrow> subline l (group_text m 1) # group1s r ls)"

text \<open>
  \<open>shlex.split\<close>: the tokens of a command in POSIX mode, split at whitespace only,
  without comments. It raises \<open>ValueError\<close> on an open quotation and on a backslash at
  the end. The token and the list of tokens are kept reversed.
\<close>

datatype shstate = Between | Word | InQuote char | Esc "char option"

definition shlex_whitespace :: string where
  "shlex_whitespace = [CHR '' '', CHR 0x09, CHR 0x0D, CHR 0x0A]"

fun shlex_run :: "shstate \<Rightarrow> string \<Rightarrow> string list \<Rightarrow> string \<Rightarrow> error + string list" where
  "shlex_run Between tok toks [] = Inr (rev toks)"
| "shlex_run Word tok toks [] = Inr (rev (rev tok # toks))"
| "shlex_run (InQuote q) tok toks [] = Inl ValueError"
| "shlex_run (Esc es) tok toks [] = Inl ValueError"
| "shlex_run Between tok toks (c # cs) =
     (if c \<in> set shlex_whitespace then shlex_run Between [] toks cs
      else if c = BS then shlex_run (Esc None) [] toks cs
      else if c = CHR 0x27 \<or> c = CHR 0x22 then shlex_run (InQuote c) [] toks cs
      else shlex_run Word [c] toks cs)"
| "shlex_run Word tok toks (c # cs) =
     (if c \<in> set shlex_whitespace then shlex_run Between [] (rev tok # toks) cs
      else if c = CHR 0x27 \<or> c = CHR 0x22 then shlex_run (InQuote c) tok toks cs
      else if c = BS then shlex_run (Esc None) tok toks cs
      else shlex_run Word (c # tok) toks cs)"
| "shlex_run (InQuote q) tok toks (c # cs) =
     (if c = q then shlex_run Word tok toks cs
      else if c = BS \<and> q = CHR 0x22 then shlex_run (Esc (Some q)) tok toks cs
      else shlex_run (InQuote q) (c # tok) toks cs)"
| "shlex_run (Esc es) tok toks (c # cs) =
     (case es of
        None \<Rightarrow> shlex_run Word (c # tok) toks cs
      | Some q \<Rightarrow>
          if c \<noteq> BS \<and> c \<noteq> q then shlex_run (InQuote q) (c # BS # tok) toks cs
          else shlex_run (InQuote q) (c # tok) toks cs)"

definition shlex_split :: "string \<Rightarrow> error + string list" where
  "shlex_split s = shlex_run Between [] [] s"

text \<open>class RunCmd: the unexpanded shell command and its line.\<close>

record RunCmd =
  rc_args :: string
  rc_line :: Line

definition RunCmd_parse :: "Line \<Rightarrow> error + RunCmd" where
  "RunCmd_parse line =
    (case shlex_split (line_text line) of
       Inl e \<Rightarrow> Inl e
     | Inr [] \<Rightarrow> Inl (CheckerError ''Invalid RUN command'' (Some line))
     | Inr (w # ws) \<Rightarrow> Inr \<lparr>rc_args = line_text line, rc_line = line\<rparr>)"

text \<open>A list comprehension whose element can raise: the first exception ends it.\<close>

fun traverse :: "('a \<Rightarrow> error + 'b) \<Rightarrow> 'a list \<Rightarrow> error + 'b list" where
  "traverse f [] = Inr []"
| "traverse f (x # xs) =
     (case f x of
        Inl e \<Rightarrow> Inl e
      | Inr y \<Rightarrow> (case traverse f xs of Inl e \<Rightarrow> Inl e | Inr ys \<Rightarrow> Inr (y # ys)))"

text \<open>
  The run commands of \<open>Checker.__init__\<close>: the RUN directives, or else the shebang
  line. \<open>text[2:-1]\<close> is the text without its first two characters and its last one.
\<close>

definition find_runcmds :: "Line list \<Rightarrow> error + RunCmd list" where
  "find_runcmds lines =
    (case traverse RunCmd_parse (group1s RUN_RE lines) of
       Inl e \<Rightarrow> Inl e
     | Inr rcs \<Rightarrow>
         if rcs \<noteq> [] then Inr rcs
         else (case lines of
                 [] \<Rightarrow> Inl IndexError
               | l0 # _ \<Rightarrow>
                   if prefix ''#!'' (line_text l0)
                   then Inr [\<lparr>rc_args = butlast (drop 2 (line_text l0)) @ '' %s'', rc_line = l0\<rparr>]
                   else Inl (CheckerError (''No runlines ('' @ [CHR 0x27] @ ''# RUN'' @ [CHR 0x27]
                                             @ '') found'') None)))"

record Checker =
  ck_name :: string
  runcmds :: "RunCmd list"
  outchecks :: "CheckCmd list"
  errchecks :: "CheckCmd list"

definition Checker_init :: "string \<Rightarrow> Line list \<Rightarrow> error + Checker" where
  "Checker_init name lines =
    (case find_runcmds lines of
       Inl e \<Rightarrow> Inl e
     | Inr rcs \<Rightarrow>
        (case traverse (\<lambda>sl. CheckCmd_parse sl ''CHECK'') (group1s CHECK_STDOUT_RE lines) of
           Inl e \<Rightarrow> Inl e
         | Inr outs \<Rightarrow>
            (case traverse (\<lambda>sl. CheckCmd_parse sl ''CHECKERR'') (group1s CHECK_STDERR_RE lines) of
               Inl e \<Rightarrow> Inl e
             | Inr errs \<Rightarrow>
                 Inr \<lparr>ck_name = name, runcmds = rcs, outchecks = outs, errchecks = errs\<rparr>)))"

section \<open>Running the commands of a fixture\<close>

text \<open>
  The shell is outside the program. It is a function \<open>exec\<close> from the commands run so
  far and the command to run to what starting the process and waiting for it gives: an
  exception (\<open>Popen\<close> can raise \<open>OSError\<close> or \<open>ValueError\<close>), or the bytes of the
  standard output, the bytes of the standard error and the exit status. Running a
  command adds it to the history.
\<close>

type_synonym shell = "string list \<Rightarrow> string \<Rightarrow> error + string \<times> string \<times> int"

text \<open>
  \<open>s.decode("utf-8")\<close>. Bytes that are not valid UTF-8 raise \<open>UnicodeDecodeError\<close>.
  A valid text decodes to its code points; a code point above 255 is outside the
  characters modelled here.
\<close>

definition is_cont :: "char \<Rightarrow> bool" where
  "is_cont c = in_ranges [(0x80, 0xBF)] c"

text \<open>
  The second byte of a sequence of three or four bytes, after the lead byte \<open>b\<close>:
  no overlong form, no surrogate, nothing above U+10FFFF.
\<close>

definition second_ok :: "char \<Rightarrow> char \<Rightarrow> bool" where
  "second_ok b c =
    (if b = CHR 0xE0 then in_ranges [(0xA0, 0xBF)] c
     else if b = CHR 0xED then in_ranges [(0x80, 0x9F)] c
     else if b = CHR 0xF0 then in_ranges [(0x90, 0xBF)] c
     else if b = CHR 0xF4 then in_ranges [(0x80, 0x8F)] c
     else True)"

fun utf8_valid :: "string \<Rightarrow> bool" where
  "utf8_valid [] = True"
| "utf8_valid (b # bs) =
     (if in_ranges [(0x00, 0x7F)] b then utf8_valid bs
      else if in_ranges [(0xC2, 0xDF)] b then
        (case bs of c1 # r \<Rightarrow> is_cont c1 \<and> utf8_valid r | _ \<Rightarrow> False)
      else if in_ranges [(0xE0, 0xEF)] b then
        (case bs of
           c1 # c2 # r \<Rightarrow> is_cont c1 \<and> is_cont c2 \<and> second_ok b c1 \<and> utf8_valid r
         | _ \<Rightarrow> False)
      else if in_ranges [(0xF0, 0xF4)] b then
        (case bs of
           c1 # c2 # c3 # r \<Rightarrow>
             is_cont c1 \<and> is_cont c2 \<and> is_cont c3 \<and> second_ok b c1 \<and> utf8_valid r
         | _ \<Rightarrow> False)
      else False)"

text \<open>The code points of a valid text, as far as they are below 256.\<close>

fun utf8_chars :: "string \<Rightarrow> error + string" where
  "utf8_chars [] = Inr []"
| "utf8_chars (b # bs) =
     (if in_ranges [(0x00, 0x7F)] b then
        (case utf8_chars bs of Inl e \<Rightarrow> Inl e | Inr t \<Rightarrow> Inr (b # t))
      else if in_ranges [(0xC2, 0xC3)] b then
        (case bs of
           c1 # r \<Rightarrow>
             (case utf8_chars r of
                Inl e \<Rightarrow> Inl e
              | Inr t \<Rightarrow> Inr (char_of ((of_char b - 0xC0) * 64 + (of_char c1 - 0x80) :: nat) # t))
         | [] \<Rightarrow> Inl UnicodeDecodeError)
      else Inl NotModelled)"

definition decode_utf8 :: "string \<Rightarrow> error + string" where
  "decode_utf8 s = (if utf8_valid s then utf8_chars s else Inl UnicodeDecodeError)"

text \<open>\<open>s.split("\n")\<close>, and \<open>split_by_newlines\<close>, which gives every part a newline.\<close>

fun split_nl :: "string \<Rightarrow> string list" where
  "split_nl [] = [[]]"
| "split_nl (c # cs) =
     (if c = NL then [] # split_nl cs
      else (case split_nl cs of [] \<Rightarrow> [[c]] | p # ps \<Rightarrow> (c # p) # ps))"

definition split_by_newlines :: "string \<Rightarrow> error + string list" where
  "split_by_newlines s =
    (case decode_utf8 s of
       Inl e \<Rightarrow> Inl e
     | Inr t \<Rightarrow> Inr (map (\<lambda>p. p @ [NL]) (split_nl t)))"

text \<open>
  \<open>TestRun.run\<close>, for the substituted command, after the commands of \<open>hist\<close>. The
  standard output is decoded before the standard error.
\<close>

definition TestRun_run ::
  "shell \<Rightarrow> Checker \<Rightarrow> string list \<Rightarrow> string \<Rightarrow> error + TestFailure option" where
  "TestRun_run exec checker hist subbed_command =
    (case exec hist subbed_command of
       Inl e \<Rightarrow> Inl e
     | Inr (stdout, stderr, status) \<Rightarrow>
       if status = 127
       then Inl (CheckerError (''Command could not be found: '' @ subbed_command) None)
       else
        (case split_by_newlines stdout of
           Inl e \<Rightarrow> Inl e
         | Inr outs \<Rightarrow>
          (case split_by_newlines stderr of
             Inl e \<Rightarrow> Inl e
           | Inr errs \<Rightarrow>
             let outlines = enumerate_lines 0 ''stdout'' outs;
                 errlines = enumerate_lines 0 ''stderr'' errs;
                 outfail = check outlines (outchecks checker);
                 errfail = check errlines (errchecks checker)
             in
               (case (outfail, errfail) of
                  (Some ofl, Some efl) \<Rightarrow>
                    (case tf_line efl of
                       None \<Rightarrow> Inr (Some ofl)
                     | Some el \<Rightarrow>
                         let ann = drop (line_number el - 1) errlines in
                         if ann = [] then Inl IndexError
                         else Inr (Some (ofl\<lparr>error_annotation_lines :=
                                Some (if line_text (last ann) = [NL] then butlast ann else ann)\<rparr>)))
                | (Some ofl, None) \<Rightarrow> Inr (Some ofl)
                | (None, ef) \<Rightarrow> Inr ef))))"

text \<open>
  The loop of \<open>check_file\<close>. The failure handler prints the failure: the failures
  handled so far are a list. An exception of a run ends the loop.
\<close>

fun run_loop ::
  "shell \<Rightarrow> Checker \<Rightarrow> (string \<times> string) list \<Rightarrow> RunCmd list \<Rightarrow>
     bool \<times> TestFailure list \<times> string list \<Rightarrow> (error + bool) \<times> TestFailure list \<times> string list" where
  "run_loop exec checker subs [] (success, handled, hist) = (Inr success, handled, hist)"
| "run_loop exec checker subs (runcmd # rest) (success, handled, hist) =
     (let subbed_command = perform_substitution (rc_args runcmd) subs in
      case TestRun_run exec checker hist subbed_command of
        Inl e \<Rightarrow> (Inl e, handled, hist @ [subbed_command])
      | Inr None \<Rightarrow> run_loop exec checker subs rest (success, handled, hist @ [subbed_command])
      | Inr (Some failure) \<Rightarrow>
          run_loop exec checker subs rest (False, handled @ [failure], hist @ [subbed_command]))"

definition check_file ::
  "shell \<Rightarrow> string list \<Rightarrow> string \<Rightarrow> (string \<times> string) list \<Rightarrow>
     (error + bool) \<times> TestFailure list \<times> string list" where
  "check_file exec input_file name subs =
    (case Checker_init name (readfile input_file name) of
       Inl e \<Rightarrow> (Inl e, [], [])
     | Inr checker \<Rightarrow> run_loop exec checker subs (runcmds checker) (True, [], []))"

text \<open>\<open>check_path\<close>, for the text of the file at the path.\<close>

definition check_path ::
  "shell \<Rightarrow> string \<Rightarrow> string \<Rightarrow> (string \<times> string) list \<Rightarrow>
     (error + bool) \<times> TestFailure list \<times> string list" where
  "check_path exec content path subs = check_file exec (file_lines content) path subs"

text \<open>
  A character that every match of a pattern must read: then the pattern matches no
  text without it.
\<close>

fun needs_char :: "char \<Rightarrow> regex \<Rightarrow> bool" where
  "needs_char c (Lit x) = (x = c)"
| "needs_char c (Cat a b) = (needs_char c a \<or> needs_char c b)"
| "needs_char c (Alt a b) = (needs_char c a \<and> needs_char c b)"
| "needs_char c (Plus g a) = needs_char c a"
| "needs_char c (Group nm a) = needs_char c a"
| "needs_char c r = False"



text \<open>
  The texts that can remain when a pattern has matched at the start of \<open>s\<close>, in a
  subject of length \<open>n\<close>; and the segments of a pattern matching the text \<open>body\<close> in
  front of \<open>rest\<close>.
\<close>

definition ends :: "nat \<Rightarrow> regex \<Rightarrow> string \<Rightarrow> string set" where
  "ends n r s = fst ` set (re_run n 0 r (s, []))"

definition segs_match :: "nat \<Rightarrow> regex list \<Rightarrow> string \<Rightarrow> string \<Rightarrow> bool" where
  "segs_match n segs body rest = (rest \<in> ends n (seq_regex segs) (body @ rest))"

text \<open>The end of every compiled pattern: \<^verbatim>\<open>\s*\n?$\<close>.\<close>

definition pattern_tail :: "regex list" where
  "pattern_tail = [Star True (InSet False space_ranges), Alt (Lit NL) Empty, Eol]"

text \<open>
  The compiled segments of a payload, from its pieces: a literal piece matches its
  characters one after the other, a piece from a span is compiled as it is.
\<close>

fun segment_regexes :: "bool \<Rightarrow> string list \<Rightarrow> regex list" where
  "segment_regexes is_even [] = []"
| "segment_regexes is_even (piece # pieces) =
     (if is_even then seq_regex (map Lit piece) else compiled (re_compile piece))
       # segment_regexes (\<not> is_even) pieces"

text \<open>
  A stack of the parser is based when its outermost frame is that of the pattern
  itself. \<open>rebase kd fs\<close> puts such a stack on top of the frames \<open>fs\<close>: its outermost
  frame becomes the frame of a group of kind \<open>kd\<close>.
\<close>

fun based :: "frame list \<Rightarrow> bool" where
  "based [] = False"
| "based [Frame k a i] = (k = Top)"
| "based (f # g # st) = based (g # st)"

fun rebase :: "gkind \<Rightarrow> frame list \<Rightarrow> frame list \<Rightarrow> frame list" where
  "rebase kd fs [] = []"
| "rebase kd fs [Frame k a i] = Frame kd a i # fs"
| "rebase kd fs (f # g # st) = f # rebase kd fs (g # st)"

text \<open>The strings that \<open>pieces_loop\<close> collects.\<close>

fun piece_strings :: "bool \<Rightarrow> string list \<Rightarrow> string list" where
  "piece_strings is_even [] = []"
| "piece_strings is_even (piece # pieces) =
     (if is_even then re_escape piece else piece) # piece_strings (\<not> is_even) pieces"

text \<open>Every piece from a span compiles.\<close>

fun spans_compile :: "bool \<Rightarrow> string list \<Rightarrow> bool" where
  "spans_compile is_even [] = True"
| "spans_compile is_even (piece # pieces) =
     ((is_even \<or> (\<exists>r. re_compile piece = Parsed r)) \<and> spans_compile (\<not> is_even) pieces)"

section \<open>Properties of the stream matcher\<close>

lemma check_loop_no_lines:
  "check_loop \<lparr>lineq = [], checkq = cq, usedlines = ul, usedchecks = uc,
     text1 = t1, text2 = t2, mismatches = ms\<rparr>
   = \<lparr>lineq = [], checkq = cq, usedlines = ul, usedchecks = uc,
     text1 = t1, text2 = t2, mismatches = ms\<rparr>"
  by (subst check_loop.simps) simp

lemma check_loop_no_checks:
  "check_loop \<lparr>lineq = lq, checkq = [], usedlines = ul, usedchecks = uc,
     text1 = t1, text2 = t2, mismatches = ms\<rparr>
   = \<lparr>lineq = lq, checkq = [], usedlines = ul, usedchecks = uc,
     text1 = t1, text2 = t2, mismatches = ms\<rparr>"
  by (subst check_loop.simps) simp

lemma check_loop_step:
  "check_loop \<lparr>lineq = rev (l # ls), checkq = rev (c # cs), usedlines = ul, usedchecks = uc,
     text1 = t1, text2 = t2, mismatches = ms\<rparr>
   = (if accepts c l then
        check_loop \<lparr>lineq = rev ls, checkq = rev cs, usedlines = ul @ [l],
          usedchecks = uc @ [c], text1 = t1 @ [escaped_text l],
          text2 = t2 @ [escaped_text l], mismatches = ms\<rparr>
      else if is_empty_space l then
        check_loop \<lparr>lineq = rev ls, checkq = rev (c # cs), usedlines = ul,
          usedchecks = uc, text1 = t1, text2 = t2, mismatches = ms\<rparr>
      else
        check_loop \<lparr>lineq = rev ls, checkq = rev cs, usedlines = ul @ [l],
          usedchecks = uc @ [c], text1 = t1 @ [escaped_text l],
          text2 = t2 @ [if escaped_text (check_line c) \<noteq> escaped_text l
                        then escaped_text (check_line c)
                        else CHR '' '' # escaped_text (check_line c)],
          mismatches = ms @ [(l, c)]\<rparr>)"
  by (subst check_loop.simps) (simp add: Let_def)

lemma check_loop_align:
  "mismatches (check_loop \<lparr>lineq = rev ls, checkq = rev cs, usedlines = ul, usedchecks = uc,
      text1 = t1, text2 = t2, mismatches = ms\<rparr>) = ms @ fst (greedy_align ls cs) \<and>
   lineq (check_loop \<lparr>lineq = rev ls, checkq = rev cs, usedlines = ul, usedchecks = uc,
      text1 = t1, text2 = t2, mismatches = ms\<rparr>) = rev (fst (snd (greedy_align ls cs))) \<and>
   checkq (check_loop \<lparr>lineq = rev ls, checkq = rev cs, usedlines = ul, usedchecks = uc,
      text1 = t1, text2 = t2, mismatches = ms\<rparr>) = rev (snd (snd (greedy_align ls cs)))"
proof (induction ls cs arbitrary: ul uc t1 t2 ms rule: greedy_align.induct)
  case (1 cs)
  show ?case by (simp add: check_loop_no_lines)
next
  case (2 l ls)
  show ?case by (simp add: check_loop_no_checks)
next
  case (3 l ls c cs)
  show ?case
  proof (cases "accepts c l")
    case True
    then show ?thesis using 3(1) by (simp add: check_loop_step del: rev.simps)
  next
    case False
    note nacc = this
    show ?thesis
    proof (cases "is_empty_space l")
      case True
      then show ?thesis using nacc 3(2) by (simp add: check_loop_step del: rev.simps)
    next
      case False
      then show ?thesis using nacc 3(3)[OF nacc False]
        by (simp add: check_loop_step split: prod.splits del: rev.simps)
    qed
  qed
qed

lemma drain_empties_eq: "drain_empties (rev ls) = rev (dropWhile is_empty_space ls)"
proof (induction ls)
  case Nil
  show ?case by (subst drain_empties.simps) simp
next
  case (Cons l ls)
  show ?case using Cons by (subst drain_empties.simps) simp
qed



lemma filter_dropWhile_not:
  "filter (\<lambda>i. \<not> P i) (dropWhile P xs) = filter (\<lambda>i. \<not> P i) xs"
  by (induction xs) auto

lemma dropWhile_nonempty_filter:
  "(dropWhile P xs \<noteq> []) = (filter (\<lambda>i. \<not> P i) xs \<noteq> [])"
  by (induction xs) auto

lemma hd_dropWhile_filter:
  "hd (dropWhile P xs) = hd (filter (\<lambda>i. \<not> P i) xs)"
  by (induction xs) auto

lemma drain_empties_rev: "drain_empties q = rev (dropWhile is_empty_space (rev q))"
  using drain_empties_eq[of "rev q"] by simp

lemma check_finish:
  "check lines checks = finish (observed (check_loop
      \<lparr>lineq = rev lines, checkq = rev checks, usedlines = [],
        usedchecks = [], text1 = [], text2 = [], mismatches = []\<rparr>))"
  unfolding check_def finish_def observed_def Let_def drain_empties_rev
  by (auto simp add: filter_dropWhile_not hd_dropWhile_filter last_rev filter_empty_conv)

lemma loop_skips_blanks:
  assumes "\<forall>b\<in>set bs. is_empty_space b \<and> (\<forall>c\<in>set cs. \<not> accepts c b)"
  shows "observed (check_loop \<lparr>lineq = rev (bs @ ys), checkq = rev cs, usedlines = ul,
           usedchecks = uc, text1 = t1, text2 = t2, mismatches = ms\<rparr>)
       = observed (check_loop \<lparr>lineq = rev ys, checkq = rev cs, usedlines = ul,
           usedchecks = uc, text1 = t1, text2 = t2, mismatches = ms\<rparr>)"
  using assms
proof (induction bs)
  case Nil
  show ?case by simp
next
  case (Cons b bs)
  show ?case
  proof (cases cs)
    case Nil
    have "is_empty_space b" "filter (\<lambda>i. \<not> is_empty_space i) bs = []"
      using Cons.prems by (auto simp: filter_empty_conv)
    then show ?thesis using Nil
      by (simp add: check_loop_no_checks observed_def)
  next
    case (Cons c cs')
    have nb: "\<not> accepts c b" "is_empty_space b" using Cons.prems Cons by auto
    have "observed (check_loop \<lparr>lineq = rev ((b # bs) @ ys), checkq = rev (c # cs'), usedlines = ul,
           usedchecks = uc, text1 = t1, text2 = t2, mismatches = ms\<rparr>)
      = observed (check_loop \<lparr>lineq = rev (bs @ ys), checkq = rev (c # cs'), usedlines = ul,
           usedchecks = uc, text1 = t1, text2 = t2, mismatches = ms\<rparr>)"
      using nb check_loop_step[of b "bs @ ys" c cs' ul uc t1 t2 ms] by simp
    then show ?thesis using Cons.IH Cons.prems Cons by simp
  qed
qed

lemma loop_insert_blanks:
  assumes "\<forall>b\<in>set bs. is_empty_space b \<and> (\<forall>c\<in>set cs. \<not> accepts c b)"
  shows "observed (check_loop \<lparr>lineq = rev (xs @ bs @ ys), checkq = rev cs, usedlines = ul,
           usedchecks = uc, text1 = t1, text2 = t2, mismatches = ms\<rparr>)
       = observed (check_loop \<lparr>lineq = rev (xs @ ys), checkq = rev cs, usedlines = ul,
           usedchecks = uc, text1 = t1, text2 = t2, mismatches = ms\<rparr>)"
  using assms
proof (induction xs arbitrary: cs ul uc t1 t2 ms)
  case Nil
  then show ?case using loop_skips_blanks[of bs cs ys] by simp
next
  case (Cons x xs)
  show ?case
  proof (cases cs)
    case Nil
    have "filter (\<lambda>i. \<not> is_empty_space i) bs = []"
      using Cons.prems by (auto simp: filter_empty_conv)
    then show ?thesis using Nil
      by (simp add: check_loop_no_checks observed_def)
  next
    case c: (Cons c cs')
    have h1: "\<forall>b\<in>set bs. is_empty_space b \<and> (\<forall>c\<in>set cs'. \<not> accepts c b)"
      using Cons.prems c by auto
    have h2: "\<forall>b\<in>set bs. is_empty_space b \<and> (\<forall>c\<in>set (c # cs'). \<not> accepts c b)"
      using Cons.prems c by auto
    show ?thesis
      unfolding c append_Cons check_loop_step
      using Cons.IH[OF h1] Cons.IH[OF h2] by simp
  qed
qed

text \<open>
  C3 (as amended). Inserting blank or whitespace-only lines anywhere in the actual output
  leaves the result of \<open>check\<close> unchanged, the anchoring and the diff context
  included, provided that no check pattern accepts an inserted line.
\<close>

theorem blank_insertion:
  assumes "\<forall>b\<in>set bs. is_empty_space b \<and> (\<forall>c\<in>set checks. \<not> accepts c b)"
  shows "check (xs @ bs @ ys) checks = check (xs @ ys) checks"
  unfolding check_finish using loop_insert_blanks[OF assms] by simp

theorem blank_insertion_witness:
  "check ([Line_init ''a'' 1 ''stdout''] @ [Line_init [NL] 2 ''stdout''] @ [Line_init ''b'' 3 ''stdout''])
        [\<lparr>check_line = Line_init ''a'' 1 ''t'', check_type = ''CHECK'', check_regex = Lit CHR ''a''\<rparr>,
         \<lparr>check_line = Line_init ''b'' 2 ''t'', check_type = ''CHECK'', check_regex = Lit CHR ''b''\<rparr>]
   = check ([Line_init ''a'' 1 ''stdout''] @ [Line_init ''b'' 3 ''stdout''])
        [\<lparr>check_line = Line_init ''a'' 1 ''t'', check_type = ''CHECK'', check_regex = Lit CHR ''a''\<rparr>,
         \<lparr>check_line = Line_init ''b'' 2 ''t'', check_type = ''CHECK'', check_regex = Lit CHR ''b''\<rparr>]"
  by (rule blank_insertion)
     (simp add: accepts_def re_match_def Line_init_def is_empty_space_def
        isspace_def is_space_def in_ranges_def space_ranges_def NL_def)

text \<open>
  C3 fails as it is stated: the pattern \<open>{{.*}}\<close> accepts a blank line. With the
  checks \<open>a\<close> and \<open>{{.*}}\<close> the lines \<open>a\<close>, \<open>b\<close> pass, and with a blank line
  between them the line \<open>b\<close> is left over.
\<close>

theorem blank_insertion_counterexample:
  "map_sum id
     (\<lambda>cs. (outcome_of (check [Line_init (''a'' @ [NL]) 1 ''stdout'',
                                 Line_init (''b'' @ [NL]) 3 ''stdout''] cs),
             outcome_of (check [Line_init (''a'' @ [NL]) 1 ''stdout'',
                                 Line_init [NL] 2 ''stdout'',
                                 Line_init (''b'' @ [NL]) 3 ''stdout''] cs)))
     (traverse (\<lambda>sl. CheckCmd_parse sl ''CHECK'')
        [Line_init ''a'' 1 ''t'', Line_init ''{{.*}}'' 2 ''t''])
   = Inr (Some Success, Some (UnmatchedOutput (Line_init (''b'' @ [NL]) 3 ''stdout'')))"
  by code_simp

section \<open>Properties of the substitution engine\<close>

lemma star_set_munch:
  "re_run n k (Star True (InSet neg rs)) (s, c) = munch (\<lambda>x. in_ranges rs x \<noteq> neg) s c"
proof (induction s)
  case Nil
  show ?case by (simp add: re_run.simps(9) star_results_def)
next
  case (Cons x xs)
  show ?case using Cons by (simp add: re_run.simps(9) star_results_def)
qed

lemma star_set_munch_fun:
  "re_run n k (Star True (InSet neg rs)) =
     (\<lambda>st. munch (\<lambda>x. in_ranges rs x \<noteq> neg) (fst st) (snd st))"
proof (rule ext)
  fix st :: mstate
  show "re_run n k (Star True (InSet neg rs)) st
      = munch (\<lambda>x. in_ranges rs x \<noteq> neg) (fst st) (snd st)"
    using star_set_munch[of n k neg rs "fst st" "snd st"] by simp
qed

lemma hd_munch: "munch P s c \<noteq> [] \<and> hd (munch P s c) = (dropWhile P s, c)"
  by (induction s) auto

lemma munch_Cons: "\<exists>rest. munch P s c = (dropWhile P s, c) # rest"
  using hd_munch[of P s c] by (cases "munch P s c") auto

lemma token_re:
  "compiled (re_compile token_pattern) =
    Cat (Lit CHR ''%'') (Group None (Alt (Lit CHR ''%'') (Plus True (InSet False ident_ranges))))"
proof -
  have "re_compile token_pattern = Parsed
    (Cat (Lit CHR ''%'') (Group None (Alt (Lit CHR ''%'')
     (Plus True (InSet False [(97, 122), (65, 90), (48, 57), (95, 95), (45, 45)])))))"
    unfolding token_pattern_def by code_simp
  then show ?thesis by (simp add: ident_ranges_def)
qed

lemma token_run_other:
  "x \<noteq> CHR ''%'' \<Longrightarrow> re_run n 0 (compiled (re_compile token_pattern)) (x # xs, []) = []"
  by (simp add: token_re)

lemma token_run_ident:
  assumes "tok \<noteq> []" "list_all is_ident tok" "post = [] \<or> \<not> is_ident (hd post)"
  shows "\<exists>rest. re_run n 0 (compiled (re_compile token_pattern)) (CHR ''%'' # tok @ post, [])
     = (post, [(1, tok)]) # rest"
proof -
  obtain t ts where tok: "tok = t # ts" using assms(1) by (cases tok) auto
  have t: "is_ident t" and ts: "list_all is_ident ts" using assms(2) tok by auto
  have np: "t \<noteq> CHR ''%''" using t by (auto simp: is_ident_def in_ranges_def ident_ranges_def)
  have dw: "dropWhile (\<lambda>x. in_ranges ident_ranges x \<noteq> False) (ts @ post) = post"
    using ts assms(3) by (induction ts) (auto simp: is_ident_def dropWhile_eq_self_iff)
  obtain rest where
    m: "munch (\<lambda>x. in_ranges ident_ranges x \<noteq> False) (ts @ post) [] = (post, []) # rest"
    using munch_Cons[of "\<lambda>x. in_ranges ident_ranges x \<noteq> False" "ts @ post" "[]"] dw by auto
  show ?thesis
    using np t m by (simp add: token_re tok star_set_munch is_ident_def)
qed

lemma token_run_length:
  "re_run n 0 (compiled (re_compile token_pattern)) st
     = re_run m 0 (compiled (re_compile token_pattern)) st"
  by (simp add: token_re star_set_munch_fun split: list.split)

lemma re_sub_from_plain:
  "CHR ''%'' \<notin> set pre \<Longrightarrow>
   re_sub_from (compiled (re_compile token_pattern)) repl n (pre @ s)
     = pre @ re_sub_from (compiled (re_compile token_pattern)) repl n s"
  by (induction pre) (auto simp: token_run_other)

lemma re_sub_from_token:
  assumes "tok \<noteq> []" "list_all is_ident tok" "post = [] \<or> \<not> is_ident (hd post)"
  shows "re_sub_from (compiled (re_compile token_pattern)) repl n (CHR ''%'' # tok @ post)
     = repl [(1, tok)] @ re_sub_from (compiled (re_compile token_pattern)) repl n post"
proof -
  obtain rest where "re_run n 0 (compiled (re_compile token_pattern)) (CHR ''%'' # tok @ post, [])
     = (post, [(1, tok)]) # rest"
    using token_run_ident[OF assms] by blast
  then show ?thesis by simp
qed

lemma re_sub_from_length:
  "re_sub_from (compiled (re_compile token_pattern)) repl n s
     = re_sub_from (compiled (re_compile token_pattern)) repl m s"
proof (induction s rule: length_induct)
  case (1 s)
  show ?case
  proof (cases s)
    case Nil
    then show ?thesis by simp
  next
    case (Cons x xs)
    have r: "re_run n 0 (compiled (re_compile token_pattern)) (x # xs, [])
       = re_run m 0 (compiled (re_compile token_pattern)) (x # xs, [])"
      by (rule token_run_length)
    show ?thesis
    proof (cases "re_run m 0 (compiled (re_compile token_pattern)) (x # xs, [])")
      case Nil
      then show ?thesis using r Cons 1 by simp
    next
      case (Cons q qs)
      then show ?thesis using r \<open>s = x # xs\<close> 1 by simp
    qed
  qed
qed

lemma perform_substitution_token:
  assumes "CHR ''%'' \<notin> set pre" "tok \<noteq> []" "list_all is_ident tok"
    "post = [] \<or> \<not> is_ident (hd post)"
  shows "perform_substitution (pre @ CHR ''%'' # tok @ post) subs
     = pre @ subber_keys (subs_ordered subs) tok @ perform_substitution post subs"
  unfolding perform_substitution_def re_sub_def
  using re_sub_from_plain[OF assms(1)] re_sub_from_token[OF assms(2,3,4)]
    re_sub_from_length[of _ "length (pre @ CHR ''%'' # tok @ post)" post "length post"]
  by (simp add: subber_def group_text_def group_def)

lemma prefix_same_length: "prefix a t \<Longrightarrow> prefix b t \<Longrightarrow> length a = length b \<Longrightarrow> a = b"
  by (auto simp: prefix_def)

lemma subber_keys_longest:
  assumes "sorted (map (\<lambda>s. - int (length (fst s))) L)" "distinct (map fst L)"
    "(key, replacement) \<in> set L" "prefix key tok"
    "\<forall>k\<in>fst ` set L. prefix k tok \<longrightarrow> length k \<le> length key"
  shows "subber_keys L tok = replacement @ drop (length key) tok"
  using assms
proof (induction L)
  case Nil
  then show ?case by simp
next
  case (Cons a L)
  obtain k1 v1 where a: "a = (k1, v1)" by (cases a) auto
  show ?case
  proof (cases "prefix k1 tok")
    case True
    have "length k1 \<le> length key" using Cons.prems(5) True a by auto
    moreover have "length key \<le> length k1" using Cons.prems(1,3) a by auto
    ultimately have "k1 = key" using prefix_same_length[OF True Cons.prems(4)] by simp
    then have "v1 = replacement" using Cons.prems(2,3) a by (auto simp: image_iff)
    then show ?thesis using True a \<open>k1 = key\<close> by simp
  next
    case False
    then have "(key, replacement) \<in> set L" using Cons.prems(3,4) a by auto
    then show ?thesis using False a Cons by auto
  qed
qed

lemma subber_keys_none:
  "\<forall>k\<in>fst ` set L. \<not> prefix k tok \<Longrightarrow> subber_keys L tok = tok"
  by (induction L) auto

lemma subs_ordered_props:
  "set (subs_ordered subs) = set subs"
  "sorted (map (\<lambda>s. - int (length (fst s))) (subs_ordered subs))"
  "distinct (map fst subs) \<Longrightarrow> distinct (map fst (subs_ordered subs))"
proof -
  show "set (subs_ordered subs) = set subs" by (simp add: subs_ordered_def)
  show "sorted (map (\<lambda>s. - int (length (fst s))) (subs_ordered subs))"
    by (simp add: subs_ordered_def)
  assume "distinct (map fst subs)"
  then show "distinct (map fst (subs_ordered subs))"
    by (simp add: subs_ordered_def distinct_map)
qed

text \<open>
  C4. A token \<open>%tok\<close> of a template (after text without \<open>%\<close>, and not followed by a
  further identifier character) is resolved against the longest key of the mapping that
  is a prefix of \<open>tok\<close>: the key's length is consumed, and the rest of \<open>tok\<close> follows the
  replacement as it is.
\<close>

theorem longest_key_first:
  assumes "distinct (map fst subs)" "(key, replacement) \<in> set subs" "prefix key tok"
    "\<forall>k\<in>fst ` set subs. prefix k tok \<longrightarrow> length k \<le> length key"
    "CHR ''%'' \<notin> set pre" "tok \<noteq> []" "list_all is_ident tok"
    "post = [] \<or> \<not> is_ident (hd post)"
  shows "perform_substitution (pre @ CHR ''%'' # tok @ post) subs
     = pre @ replacement @ drop (length key) tok @ perform_substitution post subs"
proof -
  have "subber_keys (subs_ordered subs) tok = replacement @ drop (length key) tok"
    using subber_keys_longest[of "subs_ordered subs" key replacement tok]
      subs_ordered_props[of subs] assms(1-4) by simp
  then show ?thesis using perform_substitution_token[OF assms(5-8)] by simp
qed

text \<open>
  With the keys \<open>s\<close> and \<open>sub\<close>, the template \<open>%subcommand\<close> becomes \<open>Ycommand\<close>.
\<close>

theorem longest_key_first_witness:
  "perform_substitution ''%subcommand'' [(''s'', ''X''), (''sub'', ''Y'')] = ''Ycommand''"
proof -
  have e: "perform_substitution [] [(''s'', ''X''), (''sub'', ''Y'')] = []"
    by (simp add: perform_substitution_def re_sub_def)
  show ?thesis
    using longest_key_first[of "[(''s'', ''X''), (''sub'', ''Y'')]" "''sub''" "''Y''"
        "''subcommand''" "[]" "[]"] e
    by (simp add: is_ident_def in_ranges_def ident_ranges_def)
qed

text \<open>
  C2 fails: a token with no matching key is replaced by its identifier alone; the
  leading \<open>%\<close> is dropped.
\<close>

theorem unregistered_token_counterexample:
  "perform_substitution ''%foo'' [(''%'', ''%''), (''s'', ''t.sh'')] = ''foo''"
  by code_simp

text \<open>
  C2 (as amended). A token \<open>%tok\<close> of a template (after text without \<open>%\<close>, and not
  followed by a further identifier character) of which no key of the mapping is a
  prefix is replaced by \<open>tok\<close>, the identifier without the leading \<open>%\<close>.
\<close>

theorem unregistered_token:
  assumes "\<forall>k\<in>fst ` set subs. \<not> prefix k tok"
    "CHR ''%'' \<notin> set pre" "tok \<noteq> []" "list_all is_ident tok"
    "post = [] \<or> \<not> is_ident (hd post)"
  shows "perform_substitution (pre @ CHR ''%'' # tok @ post) subs
     = pre @ tok @ perform_substitution post subs"
proof -
  have "subber_keys (subs_ordered subs) tok = tok"
    using subber_keys_none[of "subs_ordered subs" tok] subs_ordered_props(1)[of subs] assms(1)
    by simp
  then show ?thesis using perform_substitution_token[OF assms(2-5)] by simp
qed

theorem unregistered_token_witness:
  "perform_substitution ''run %fish -c'' [(''%'', ''%''), (''s'', ''t.sh'')] = ''run fish -c''"
proof -
  have e: "perform_substitution '' -c'' [(''%'', ''%''), (''s'', ''t.sh'')] = '' -c''"
    by code_simp
  show ?thesis
    using unregistered_token[of "[(''%'', ''%''), (''s'', ''t.sh'')]" "''fish''" "''run ''" "'' -c''"] e
    by (simp add: is_ident_def in_ranges_def ident_ranges_def)
qed

section \<open>Properties of the pattern compiler\<close>

text \<open>
  C6 fails as it is stated: the pattern compiled from \<open>{{b|c}}d\<close> rejects the line
  \<open>b\<close>.
\<close>

theorem segment_grouping_counterexample:
  "payload_accepts ''{{b|c}}d'' ''b'' = Inr False"
  by code_simp

text \<open>
  C6 (as amended). Every segment is wrapped in a non-capturing group before the
  segments are concatenated: for \<open>{{b|c}}d\<close> the pattern that is compiled is
  \<^verbatim>\<open>^\s*(?:)(?:b|c)(?:d)\s*\n?$\<close>, which accepts the lines \<open>bd\<close> and \<open>cd\<close> and
  rejects the line \<open>b\<close>.
\<close>

theorem segment_grouping:
  "re_split bracket_re ''{{b|c}}d'' = [[], ''b|c'', ''d''] \<and>
   pieces_loop l True [] [[], ''b|c'', ''d''] = Inr [[], ''b|c'', ''d''] \<and>
   full_pattern [[], ''b|c'', ''d'']
     = ''^'' @ [BS] @ ''s*(?:)(?:b|c)(?:d)'' @ [BS] @ ''s*'' @ [BS] @ ''n?$'' \<and>
   payload_accepts ''{{b|c}}d'' ''bd'' = Inr True \<and>
   payload_accepts ''{{b|c}}d'' ''cd'' = Inr True \<and>
   payload_accepts ''{{b|c}}d'' ''b'' = Inr False"
proof -
  have "re_split bracket_re ''{{b|c}}d'' = [[], ''b|c'', ''d'']" by code_simp
  moreover have "re_compile ''b|c'' = Parsed (Alt (Lit CHR ''b'') (Lit CHR ''c''))" by code_simp
  then have "pieces_loop l True [] [[], ''b|c'', ''d''] = Inr [[], ''b|c'', ''d'']"
    by (simp add: re_escape_def special_chars_def BS_def)
  moreover have "full_pattern [[], ''b|c'', ''d'']
      = ''^'' @ [BS] @ ''s*(?:)(?:b|c)(?:d)'' @ [BS] @ ''s*'' @ [BS] @ ''n?$''"
    by (simp add: full_pattern_def wrap_group_def anchor_head_def anchor_tail_def)
  moreover have "payload_accepts ''{{b|c}}d'' ''bd'' = Inr True" by code_simp
  moreover have "payload_accepts ''{{b|c}}d'' ''cd'' = Inr True" by code_simp
  moreover have "payload_accepts ''{{b|c}}d'' ''b'' = Inr False" by code_simp
  ultimately show ?thesis by simp
qed

text \<open>
  C8 fails on the code: each of the two spans of \<open>{{(?P<n>a)}}{{(?P<n>b)}}\<close> compiles,
  but together they define the group \<open>n\<close> twice, and the last \<open>re.compile\<close> of
  \<open>CheckCmd.parse\<close> raises \<open>re.error\<close>, which nothing catches.
\<close>

theorem two_spans_one_group_name:
  "re_compile ''(?P<n>a)'' = Parsed (Group (Some ''n'') (Lit CHR ''a'')) \<and>
   re_compile ''(?P<n>b)'' = Parsed (Group (Some ''n'') (Lit CHR ''b'')) \<and>
   CheckCmd_parse (Line_init ''{{(?P<n>a)}}{{(?P<n>b)}}'' 1 ''t'') ''CHECK'' = Inl RegexError"
proof -
  have "re_compile ''(?P<n>a)'' = Parsed (Group (Some ''n'') (Lit CHR ''a''))" by code_simp
  moreover have "re_compile ''(?P<n>b)'' = Parsed (Group (Some ''n'') (Lit CHR ''b''))" by code_simp
  moreover have "CheckCmd_parse (Line_init ''{{(?P<n>a)}}{{(?P<n>b)}}'' 1 ''t'') ''CHECK''
      = Inl RegexError" by code_simp
  ultimately show ?thesis by simp
qed

section \<open>Properties of the directive scanner\<close>

lemma re_run_suffix:
  "q \<in> set (re_run n k r st) \<Longrightarrow> suffix (fst q) (fst st)"
proof (induction n k r st arbitrary: q rule: re_run.induct)
  case (7 n k a b st)
  then obtain p where p: "p \<in> set (re_run n k a st)" and q: "q \<in> set (re_run n (k + ngroups a) b p)"
    by auto
  show ?case using 7(1)[OF p] 7(2)[OF p q] by (rule suffix_order.trans[rotated])
next
  case (9 n k g a st)
  have "q = st \<or> (\<exists>p \<in> set (re_run n k a st). length (fst p) < length (fst st) \<and>
           q \<in> set (re_run n k (Star g a) p))"
    using 9(3) by (subst (asm) re_run.simps(9)) (auto simp: star_results_def split: if_splits)
  then show ?case
  proof
    assume "q = st" then show ?thesis by simp
  next
    assume "\<exists>p \<in> set (re_run n k a st). length (fst p) < length (fst st) \<and>
           q \<in> set (re_run n k (Star g a) p)"
    then obtain p where p: "p \<in> set (re_run n k a st)" "length (fst p) < length (fst st)"
      "q \<in> set (re_run n k (Star g a) p)" by blast
    have "suffix (fst q) (fst p)" using 9(2)[of p q] p by simp
    moreover have "suffix (fst p) (fst st)" using 9(1)[OF p(1)] .
    ultimately show ?thesis by (rule suffix_order.trans)
  qed
next
  case (10 n k g a st)
  then obtain p where p: "p \<in> set (re_run n k a st)" and q: "q \<in> set (re_run n k (Star g a) p)"
    by auto
  show ?case using 10(1)[OF p] 10(2)[OF p q] by (rule suffix_order.trans[rotated])
qed (auto split: list.splits if_splits simp: suffix_Cons)

lemma needs_char_no_match:
  "needs_char c r \<Longrightarrow> c \<notin> set (fst st) \<Longrightarrow> re_run n k r st = []"
proof (induction n k r st rule: re_run.induct)
  case (7 n k a b st)
  show ?case
  proof (cases "needs_char c a")
    case True
    then show ?thesis using 7 by simp
  next
    case False
    then have nb: "needs_char c b" using 7(3) by simp
    have "re_run n (k + ngroups a) b p = []" if "p \<in> set (re_run n k a st)" for p
    proof -
      have "set (fst p) \<subseteq> set (fst st)" using re_run_suffix[OF that] by (rule set_mono_suffix)
      then show ?thesis using 7(2)[OF that nb] 7(4) by auto
    qed
    then show ?thesis by simp
  qed
qed (auto split: list.splits)

lemma directive_needs_newline:
  "needs_char NL RUN_RE" "needs_char NL CHECK_STDOUT_RE" "needs_char NL CHECK_STDERR_RE"
  unfolding RUN_RE_def CHECK_STDOUT_RE_def CHECK_STDERR_RE_def directive_pattern_def COMMENT_RE_def
  by code_simp+

lemma re_match_needs_char:
  "needs_char c r \<Longrightarrow> c \<notin> set s \<Longrightarrow> re_match r s = None"
  by (simp add: re_match_def needs_char_no_match)

lemma file_lines_shape:
  "t \<in> set (file_lines s) \<Longrightarrow> t \<noteq> [] \<and> NL \<notin> set (butlast t)"
proof (induction s arbitrary: t)
  case Nil
  then show ?case by simp
next
  case (Cons c cs)
  show ?case
  proof (cases "c = NL")
    case True
    then show ?thesis using Cons by auto
  next
    case False
    show ?thesis
    proof (cases "file_lines cs")
      case Nil
      then show ?thesis using Cons.prems False by simp
    next
      case (Cons l ls)
      have l: "l \<noteq> [] \<and> NL \<notin> set (butlast l)" using Cons.IH[of l] Cons by simp
      show ?thesis using Cons.prems False Cons l Cons.IH[of t] by auto
    qed
  qed
qed

lemma enumerate_lines_text:
  "l \<in> set (enumerate_lines i name ts) \<Longrightarrow> line_text l \<in> set ts"
  by (induction ts arbitrary: i) auto

text \<open>
  C10. On a line of a fixture file whose text does not end with a newline (it can only
  be the last line of the file) the scanner finds no RUN, CHECK or CHECKERR directive:
  each of the three patterns ends with a newline that it must read.
\<close>

theorem no_directive_without_newline:
  assumes "l \<in> set (readfile (file_lines content) name)"
    and "last (line_text l) \<noteq> NL"
  shows "group1s RUN_RE [l] = [] \<and> group1s CHECK_STDOUT_RE [l] = []
     \<and> group1s CHECK_STDERR_RE [l] = []"
proof -
  have t: "line_text l \<in> set (file_lines content)"
    using assms(1) enumerate_lines_text by (simp add: readfile_def)
  have "line_text l \<noteq> []" "NL \<notin> set (butlast (line_text l))"
    using file_lines_shape[OF t] by simp_all
  then have "NL \<notin> set (line_text l)"
    using assms(2) by (metis append_butlast_last_id in_set_butlast_appendI insert_iff list.set(2) set_append Un_iff empty_iff list.set(1))
  then show ?thesis
    using directive_needs_newline by (simp add: re_match_needs_char)
qed

text \<open>
  The second line of a fixture that ends without a newline: its RUN directive is not
  found, while that of the first line is.
\<close>

theorem no_directive_without_newline_witness:
  "group1s RUN_RE [Line_init ''# RUN: b'' 2 ''t''] = [] \<and>
   group1s CHECK_STDOUT_RE [Line_init ''# RUN: b'' 2 ''t''] = [] \<and>
   group1s CHECK_STDERR_RE [Line_init ''# RUN: b'' 2 ''t''] = [] \<and>
   group1s RUN_RE (readfile (file_lines (''# RUN: a'' @ [NL] @ ''# RUN: b'')) ''t'')
     = [Line_init ''a'' 1 ''t'']"
proof -
  have m: "Line_init ''# RUN: b'' 2 ''t''
      \<in> set (readfile (file_lines (''# RUN: a'' @ [NL] @ ''# RUN: b'')) ''t'')"
    by (simp add: readfile_def Line_init_def NL_def)
  have l: "last (line_text (Line_init ''# RUN: b'' 2 ''t'')) \<noteq> NL"
    by (simp add: Line_init_def NL_def)
  have "group1s RUN_RE (readfile (file_lines (''# RUN: a'' @ [NL] @ ''# RUN: b'')) ''t'')
     = [Line_init ''a'' 1 ''t'']"
    by code_simp
  then show ?thesis using no_directive_without_newline[OF m l] by simp
qed

text \<open>
  The shebang fallback of \<open>Checker.__init__\<close> when no RUN directive is found: a first
  line \<open>#!\<close>, \<open>rest\<close>, newline gives the one command \<open>rest\<close> followed by \<open> %s\<close>, and
  a first line that does not begin with \<open>#!\<close> gives the error.
\<close>

lemma shebang_fallback:
  assumes "group1s RUN_RE (l0 # ls) = []"
  shows "line_text l0 = ''#!'' @ rest @ [NL] \<Longrightarrow>
           find_runcmds (l0 # ls) = Inr [\<lparr>rc_args = rest @ '' %s'', rc_line = l0\<rparr>]"
    and "\<not> prefix ''#!'' (line_text l0) \<Longrightarrow>
           find_runcmds (l0 # ls) = Inl (CheckerError (''No runlines ('' @ [CHR 0x27] @ ''# RUN''
                                             @ [CHR 0x27] @ '') found'') None)"
  using assms by (simp_all add: find_runcmds_def butlast_append)

text \<open>
  C7 fails on the code. A fixture that is the one line \<open>#!/bin/sh\<close> without a newline
  has no RUN directive and begins with \<open>#!\<close>; the command that is synthesized is
  \<open>/bin/s %s\<close>, since \<open>text[2:-1]\<close> removes the last character whether or not it is
  a newline. For the empty fixture \<open>lines[0]\<close> raises \<open>IndexError\<close>, which is no
  \<open>CheckerError\<close>.
\<close>

theorem shebang_without_newline:
  "group1s RUN_RE (readfile (file_lines ''#!/bin/sh'') ''t'') = [] \<and>
   find_runcmds (readfile (file_lines ''#!/bin/sh'') ''t'')
     = Inr [\<lparr>rc_args = ''/bin/s %s'', rc_line = Line_init ''#!/bin/sh'' 1 ''t''\<rparr>] \<and>
   find_runcmds (readfile (file_lines []) ''t'') = Inl IndexError"
proof -
  have "group1s RUN_RE (readfile (file_lines ''#!/bin/sh'') ''t'') = []" by code_simp
  moreover have "find_runcmds (readfile (file_lines ''#!/bin/sh'') ''t'')
     = Inr [\<lparr>rc_args = ''/bin/s %s'', rc_line = Line_init ''#!/bin/sh'' 1 ''t''\<rparr>]"
    by code_simp
  moreover have "find_runcmds (readfile (file_lines []) ''t'') = Inl IndexError" by code_simp
  ultimately show ?thesis by simp
qed

section \<open>Properties of the run loop\<close>

lemma greedy_align_subset:
  "fst ` set (fst (greedy_align ls cs)) \<subseteq> set ls \<and>
   set (fst (snd (greedy_align ls cs))) \<subseteq> set ls"
proof (induction ls cs rule: greedy_align.induct)
  case (1 cs)
  show ?case by simp
next
  case (2 l ls)
  show ?case by simp
next
  case (3 l ls c cs)
  show ?case
  proof (cases "accepts c l")
    case True
    then show ?thesis using 3(1) by auto
  next
    case False
    note nacc = this
    show ?thesis
    proof (cases "is_empty_space l")
      case True
      then show ?thesis using nacc 3(2) by auto
    next
      case False
      then show ?thesis using nacc 3(3)[OF nacc False]
        by (cases "greedy_align ls cs") auto
    qed
  qed
qed

lemma check_line_mem:
  assumes "check ls cs = Some f" "tf_line f = Some l"
  shows "l \<in> set ls"
proof -
  obtain ms lo co where g: "greedy_align ls cs = (ms, lo, co)"
    by (cases "greedy_align ls cs") auto
  let ?s = "check_loop \<lparr>lineq = rev ls, checkq = rev cs, usedlines = [],
                          usedchecks = [], text1 = [], text2 = [], mismatches = []\<rparr>"
  have m: "mismatches ?s = ms" and q: "lineq ?s = rev lo" and c: "checkq ?s = rev co"
    using check_loop_align[of ls cs "[]" "[]" "[]" "[]" "[]"] g by simp_all
  have sub: "fst ` set ms \<subseteq> set ls" "set lo \<subseteq> set ls"
    using greedy_align_subset[of ls cs] g by simp_all
  have d: "drain_empties (rev lo) = rev (dropWhile is_empty_space lo)"
    by (rule drain_empties_eq)
  show ?thesis
  proof (cases "ms = []")
    case False
    then have "l = fst (hd ms)"
      using assms unfolding check_def Let_def m q c d by auto
    then show ?thesis using False sub(1) by (cases ms) auto
  next
    case True
    then have ne: "dropWhile is_empty_space lo \<noteq> []" and "l = hd (dropWhile is_empty_space lo)"
      using assms unfolding check_def Let_def m q c d
      by (auto simp: last_rev split: if_splits)
    then have "l \<in> set (dropWhile is_empty_space lo)" by simp
    then show ?thesis using sub(2) set_dropWhileD by fastforce
  qed
qed

lemma enumerate_lines_number:
  "l \<in> set (enumerate_lines i name ts) \<Longrightarrow> i < line_number l \<and> line_number l \<le> i + length ts"
  by (induction ts arbitrary: i) fastforce+

lemma length_enumerate_lines [simp]: "length (enumerate_lines i name ts) = length ts"
  by (induction ts arbitrary: i) auto

lemma TestRun_run_returns:
  assumes "exec hist cmd = Inr (out, err, st)" "st \<noteq> 127"
    "split_by_newlines out = Inr outs" "split_by_newlines err = Inr errs"
  shows "\<exists>r. TestRun_run exec checker hist cmd = Inr r"
proof -
  let ?el = "enumerate_lines 0 ''stderr'' errs"
  have ann: "drop (line_number el - 1) ?el \<noteq> []"
    if "check ?el (errchecks checker) = Some efl" "tf_line efl = Some el" for efl el
  proof -
    have "el \<in> set ?el" using check_line_mem[OF that] .
    then have "0 < line_number el \<and> line_number el \<le> length ?el"
      using enumerate_lines_number[of el 0] by simp
    then have "line_number el - 1 < length ?el" by arith
    then show ?thesis by simp
  qed
  show ?thesis
    using assms(2) ann
    by (auto simp add: TestRun_run_def assms(1,3,4) Let_def split: option.splits)
qed

text \<open>
  The exceptions of a run: the one of starting the process, \<open>CheckerError\<close> for the
  exit status 127, and the one of decoding the standard output or, after it, the
  standard error.
\<close>

lemma TestRun_run_raises:
  "TestRun_run exec checker hist cmd = Inl e \<longleftrightarrow>
    (case exec hist cmd of
       Inl x \<Rightarrow> e = x
     | Inr (out, err, st) \<Rightarrow>
         if st = 127 then e = CheckerError (''Command could not be found: '' @ cmd) None
         else (case split_by_newlines out of
                 Inl x \<Rightarrow> e = x
               | Inr outs \<Rightarrow> split_by_newlines err = Inl e))"
proof (cases "exec hist cmd")
  case (Inl x)
  then show ?thesis by (auto simp add: TestRun_run_def)
next
  case (Inr t)
  obtain out err st where t: "t = (out, err, st)" by (cases t) auto
  show ?thesis
  proof (cases "st = 127")
    case True
    then show ?thesis using Inr t by (auto simp add: TestRun_run_def)
  next
    case False
    note st = this
    show ?thesis
    proof (cases "split_by_newlines out")
      case (Inl x)
      then show ?thesis using Inr t st by (auto simp add: TestRun_run_def)
    next
      case outs: (Inr outs)
      show ?thesis
      proof (cases "split_by_newlines err")
        case (Inl x)
        then show ?thesis using Inr t st outs by (auto simp add: TestRun_run_def)
      next
        case errs: (Inr errs)
        obtain r where "TestRun_run exec checker hist cmd = Inr r"
          using TestRun_run_returns[of exec hist cmd out err st outs errs checker] Inr t st outs errs
          by auto
        then show ?thesis using Inr t st outs errs by simp
      qed
    qed
  qed
qed

lemma split_by_newlines_raises:
  "split_by_newlines s = Inl e \<Longrightarrow>
     \<not> utf8_valid s \<and> e = UnicodeDecodeError \<or> utf8_valid s \<and> utf8_chars s = Inl e"
  by (auto simp add: split_by_newlines_def decode_utf8_def split: if_splits sum.splits)

text \<open>
  Two bytes that encode one character, and a byte that starts no character: the run
  of a command that prints it raises, and the loop ends there.
\<close>

lemma split_by_newlines_two_bytes:
  "split_by_newlines [CHR 0x61, CHR 0xC3, CHR 0xA9, NL, CHR 0x62]
     = Inr [[CHR 0x61, CHR 0xE9, NL], [CHR 0x62, NL]]"
  by code_simp

lemma run_output_not_utf8:
  "check_file (\<lambda>h c. Inr ([CHR 0xFF], [], 0))
      [''# RUN: a'' @ [NL], ''# RUN: b'' @ [NL], ''# CHECK: x'' @ [NL]] ''t'' [(''%'', ''%'')]
   = (Inl UnicodeDecodeError, [], [''a''])"
  by code_simp

lemma run_loop_raise:
  "TestRun_run exec checker hist (perform_substitution (rc_args rc) subs) = Inl e \<Longrightarrow>
   run_loop exec checker subs (rc # rest) (success, handled, hist)
     = (Inl e, handled, hist @ [perform_substitution (rc_args rc) subs])"
  by (simp add: Let_def)





section \<open>Properties of matching\<close>

lemma re_run_fst_indep:
  "fst st = fst st' \<Longrightarrow> fst ` set (re_run n k r st) = fst ` set (re_run n k' r st')"
proof (induction n k r st arbitrary: k' st' rule: re_run.induct)
  case (7 n k a b st)
  have a: "fst ` set (re_run n k a st) = fst ` set (re_run n k' a st')"
    using 7(1)[OF 7(3)] .
  have b: "fst ` set (re_run n (k + ngroups a) b p) = fst ` set (re_run n (k' + ngroups a) b p')"
    if "p \<in> set (re_run n k a st)" "fst p = fst p'" for p p'
    using 7(2)[OF that] .
  show ?case
  proof (rule set_eqI, rule iffI)
    fix x assume "x \<in> fst ` set (re_run n k (Cat a b) st)"
    then obtain p where p: "p \<in> set (re_run n k a st)" "x \<in> fst ` set (re_run n (k + ngroups a) b p)"
      by auto
    then obtain p' where p': "p' \<in> set (re_run n k' a st')" "fst p = fst p'"
      using a by (metis (no_types, lifting) image_iff)
    then have "x \<in> fst ` set (re_run n (k' + ngroups a) b p')" using b[OF p(1) p'(2)] p(2) by simp
    then show "x \<in> fst ` set (re_run n k' (Cat a b) st')" using p'(1) by auto
  next
    fix x assume "x \<in> fst ` set (re_run n k' (Cat a b) st')"
    then obtain p' where p': "p' \<in> set (re_run n k' a st')" "x \<in> fst ` set (re_run n (k' + ngroups a) b p')"
      by auto
    then obtain p where p: "p \<in> set (re_run n k a st)" "fst p = fst p'"
      using a by (metis (no_types, lifting) image_iff)
    then have "x \<in> fst ` set (re_run n (k + ngroups a) b p)" using b[OF p(1) p(2)] p'(2) by simp
    then show "x \<in> fst ` set (re_run n k (Cat a b) st)" using p(1) by auto
  qed
next
  case (8 n k a b st)
  show ?case using 8(1)[OF 8(3)] 8(2)[OF 8(3)] by (simp add: image_Un)
next
  case (9 n k g a st)
  have a: "fst ` set (re_run n k a st) = fst ` set (re_run n k' a st')"
    using 9(1)[OF 9(3)] .
  have b: "fst ` set (re_run n k (Star g a) p) = fst ` set (re_run n k' (Star g a) p')"
    if "p \<in> set (re_run n k a st)" "length (fst p) < length (fst st)" "fst p = fst p'" for p p'
    using 9(2)[of p p' k'] that by simp
  have l: "fst ` set (re_run n k (Star g a) st) = insert (fst st)
      (\<Union>p \<in> {p \<in> set (re_run n k a st). length (fst p) < length (fst st)}.
          fst ` set (re_run n k (Star g a) p))" for k st
    by (subst re_run.simps(9)) (auto simp: star_results_def)
  show ?case
  proof (rule set_eqI, rule iffI)
    fix x assume "x \<in> fst ` set (re_run n k (Star g a) st)"
    then consider "x = fst st" | p where "p \<in> set (re_run n k a st)" "length (fst p) < length (fst st)"
        "x \<in> fst ` set (re_run n k (Star g a) p)"
      unfolding l[of k st] by blast
    then show "x \<in> fst ` set (re_run n k' (Star g a) st')"
    proof cases
      case 1
      then show ?thesis unfolding l[of k' st'] using 9(3) by simp
    next
      case 2
      then obtain p' where p': "p' \<in> set (re_run n k' a st')" "fst p = fst p'"
        using a by (metis (no_types, lifting) image_iff)
      have pl': "length (fst p') < length (fst st')" using p'(2) 2(2) 9(3) by simp
      have "x \<in> fst ` set (re_run n k' (Star g a) p')" using b[OF 2(1,2) p'(2)] 2(3) by simp
      then show ?thesis unfolding l[of k' st'] using p'(1) pl' by blast
    qed
  next
    fix x assume "x \<in> fst ` set (re_run n k' (Star g a) st')"
    then consider "x = fst st'" | p' where "p' \<in> set (re_run n k' a st')" "length (fst p') < length (fst st')"
        "x \<in> fst ` set (re_run n k' (Star g a) p')"
      unfolding l[of k' st'] by blast
    then show "x \<in> fst ` set (re_run n k (Star g a) st)"
    proof cases
      case 1
      then show ?thesis unfolding l[of k st] using 9(3) by simp
    next
      case 2
      then obtain p where p: "p \<in> set (re_run n k a st)" "fst p = fst p'"
        using a by (metis (no_types, lifting) image_iff)
      have pl: "length (fst p) < length (fst st)" using p(2) 2(2) 9(3) by simp
      have "x \<in> fst ` set (re_run n k (Star g a) p)" using b[OF p(1) pl p(2)] 2(3) by simp
      then show ?thesis unfolding l[of k st] using p(1) pl by blast
    qed
  qed
next
  case (10 n k g a st)
  have a: "fst ` set (re_run n k a st) = fst ` set (re_run n k' a st')"
    using 10(1)[OF 10(3)] .
  have b: "fst ` set (re_run n k (Star g a) p) = fst ` set (re_run n k' (Star g a) p')"
    if "p \<in> set (re_run n k a st)" "fst p = fst p'" for p p'
    using 10(2)[OF that] .
  show ?case
  proof (rule set_eqI, rule iffI)
    fix x assume "x \<in> fst ` set (re_run n k (Plus g a) st)"
    then obtain p where p: "p \<in> set (re_run n k a st)" "x \<in> fst ` set (re_run n k (Star g a) p)"
      by auto
    then obtain p' where p': "p' \<in> set (re_run n k' a st')" "fst p = fst p'"
      using a by (metis (no_types, lifting) image_iff)
    then have "x \<in> fst ` set (re_run n k' (Star g a) p')" using b[OF p(1) p'(2)] p(2) by simp
    then show "x \<in> fst ` set (re_run n k' (Plus g a) st')" using p'(1) by auto
  next
    fix x assume "x \<in> fst ` set (re_run n k' (Plus g a) st')"
    then obtain p' where p': "p' \<in> set (re_run n k' a st')" "x \<in> fst ` set (re_run n k' (Star g a) p')"
      by auto
    then obtain p where p: "p \<in> set (re_run n k a st)" "fst p = fst p'"
      using a by (metis (no_types, lifting) image_iff)
    then have "x \<in> fst ` set (re_run n k (Star g a) p)" using b[OF p(1) p(2)] p'(2) by simp
    then show "x \<in> fst ` set (re_run n k (Plus g a) st)" using p(1) by auto
  qed
next
  case (11 n k nm a st)
  show ?case using 11(1)[OF 11(2), of "Suc k'"] by (simp add: image_image)
qed (auto split: list.splits)

lemma ends_run: "fst ` set (re_run n k r st) = ends n r (fst st)"
  unfolding ends_def by (rule re_run_fst_indep) simp

lemma ends_Cat: "ends n (Cat a b) s = (\<Union>s' \<in> ends n a s. ends n b s')"
proof -
  have "ends n (Cat a b) s = (\<Union>p \<in> set (re_run n 0 a (s, [])). fst ` set (re_run n (ngroups a) b p))"
    by (auto simp: ends_def)
  also have "\<dots> = (\<Union>p \<in> set (re_run n 0 a (s, [])). ends n b (fst p))"
    by (simp add: ends_run)
  also have "\<dots> = (\<Union>s' \<in> ends n a s. ends n b s')"
    by (auto simp: ends_def)
  finally show ?thesis .
qed

lemma ends_simps:
  "ends n Empty s = {s}"
  "ends n (Lit c) [] = {}"
  "ends n (Lit c) (x # xs) = (if x = c then {xs} else {})"
  "ends n Bol s = (if length s = n then {s} else {})"
  "ends n Eol s = (if s = [] \<or> s = [NL] then {s} else {})"
  "ends n (Alt a b) s = ends n a s \<union> ends n b s"
proof -
  show "ends n (Alt a b) s = ends n a s \<union> ends n b s"
    using ends_run[of n "ngroups a" b "(s, [])"] by (simp add: ends_def image_Un)
qed (simp_all add: ends_def)

lemma ends_seq_Cons:
  "ends n (seq_regex (r # rs)) s = (\<Union>s' \<in> ends n r s. ends n (seq_regex rs) s')"
  by (cases rs) (simp_all add: ends_Cat ends_simps)

lemma ends_seq_append:
  "ends n (seq_regex (xs @ ys)) s = (\<Union>s' \<in> ends n (seq_regex xs) s. ends n (seq_regex ys) s')"
proof (induction xs arbitrary: s)
  case Nil
  show ?case by (simp add: ends_simps)
next
  case (Cons x xs)
  show ?case using Cons by (simp add: ends_seq_Cons del: seq_regex.simps)
qed

lemma set_munch: "set (munch P s c) = {(drop i s, c) | i. i \<le> length (takeWhile P s)}"
proof (induction s)
  case Nil
  show ?case by auto
next
  case (Cons x xs)
  show ?case
  proof (cases "P x")
    case False
    then show ?thesis by auto
  next
    case True
    have "{(drop i (x # xs), c) | i. i \<le> Suc (length (takeWhile P xs))}
        = insert (x # xs, c) {(drop i xs, c) | i. i \<le> length (takeWhile P xs)}"
    proof (rule set_eqI, rule iffI)
      fix q assume "q \<in> {(drop i (x # xs), c) | i. i \<le> Suc (length (takeWhile P xs))}"
      then obtain i where i: "q = (drop i (x # xs), c)" "i \<le> Suc (length (takeWhile P xs))" by blast
      show "q \<in> insert (x # xs, c) {(drop i xs, c) | i. i \<le> length (takeWhile P xs)}"
      proof (cases i)
        case 0
        then show ?thesis using i by simp
      next
        case (Suc j)
        then show ?thesis using i by auto
      qed
    next
      fix q assume "q \<in> insert (x # xs, c) {(drop i xs, c) | i. i \<le> length (takeWhile P xs)}"
      then consider "q = (x # xs, c)" | j where "q = (drop j xs, c)" "j \<le> length (takeWhile P xs)"
        by blast
      then show "q \<in> {(drop i (x # xs), c) | i. i \<le> Suc (length (takeWhile P xs))}"
      proof cases
        case 1
        then have "q = (drop 0 (x # xs), c)" by simp
        then show ?thesis by blast
      next
        case 2
        then have "q = (drop (Suc j) (x # xs), c)" "Suc j \<le> Suc (length (takeWhile P xs))" by simp_all
        then show ?thesis by blast
      qed
    qed
    then show ?thesis using True Cons by simp
  qed
qed

lemma ends_spaces:
  "ends n (Star True (InSet False space_ranges)) s
     = {drop i s | i. i \<le> length (takeWhile is_space s)}"
proof -
  have "(\<lambda>x. in_ranges space_ranges x \<noteq> False) = is_space" by (auto simp: is_space_def)
  then show ?thesis
    unfolding ends_def star_set_munch set_munch by (auto simp: image_iff)
qed


lemma take_takeWhile_all: "i \<le> length (takeWhile P s) \<Longrightarrow> list_all P (take i s)"
proof (induction s arbitrary: i)
  case Nil
  show ?case by simp
next
  case (Cons x xs)
  show ?case using Cons by (cases i) (auto split: if_splits)
qed

lemma takeWhile_all_prefix: "list_all P ws \<Longrightarrow> length ws \<le> length (takeWhile P (ws @ r))"
  by (induction ws) auto

lemma is_space_NL: "is_space NL"
  by (simp add: is_space_def in_ranges_def space_ranges_def NL_def)

lemma ends_suffix: "s' \<in> ends n r s \<Longrightarrow> suffix s' s"
  unfolding ends_def using re_run_suffix[of _ n 0 r "(s, [])"] by auto

lemma tail_unfold:
  "ends n (seq_regex pattern_tail) s
     = (\<Union>s1 \<in> ends n (Star True (InSet False space_ranges)) s.
          \<Union>s2 \<in> ends n (Alt (Lit NL) Empty) s1. ends n Eol s2)"
  by (simp add: pattern_tail_def ends_Cat)

lemma tail_ends: "(ends n (seq_regex pattern_tail) s \<noteq> {}) = list_all is_space s"
proof
  assume "ends n (seq_regex pattern_tail) s \<noteq> {}"
  then obtain i s2 where i: "i \<le> length (takeWhile is_space s)"
    and s2: "s2 \<in> ends n (Alt (Lit NL) Empty) (drop i s)" and e: "ends n Eol s2 \<noteq> {}"
    unfolding tail_unfold by (auto simp: ends_spaces)
  have "s2 = [] \<or> s2 = [NL]" using e by (auto simp: ends_simps split: if_splits)
  moreover have "s2 = drop i s \<or> drop i s = NL # s2"
    using s2 by (cases "drop i s") (auto simp: ends_simps split: if_splits)
  ultimately have "drop i s = [] \<or> drop i s = [NL] \<or> drop i s = [NL, NL]" by auto
  then have "list_all is_space (drop i s)" using is_space_NL by (elim disjE) simp_all
  moreover have "list_all is_space (take i s)" using take_takeWhile_all[OF i] .
  ultimately have "list_all is_space (take i s @ drop i s)" by (simp del: append_take_drop_id)
  then show "list_all is_space s" by simp
next
  assume a: "list_all is_space s"
  then have "takeWhile is_space s = s" by (simp add: list_all_iff)
  then have "drop (length s) s \<in> ends n (Star True (InSet False space_ranges)) s"
    unfolding ends_spaces by (metis (mono_tags, lifting) mem_Collect_eq order_refl)
  then have "[] \<in> ends n (Star True (InSet False space_ranges)) s" by simp
  moreover have "[] \<in> ends n (Alt (Lit NL) Empty) []" by (simp add: ends_simps)
  moreover have "[] \<in> ends n Eol []" by (simp add: ends_simps)
  ultimately have "[] \<in> ends n (seq_regex pattern_tail) s"
    unfolding tail_unfold by blast
  then show "ends n (seq_regex pattern_tail) s \<noteq> {}" by blast
qed

lemma anchored_shape:
  "(ends (length t) (seq_regex ([Bol, Star True (InSet False space_ranges)] @ segs @ pattern_tail)) t \<noteq> {})
   = (\<exists>ws1 body ws2. t = ws1 @ body @ ws2 \<and> list_all is_space ws1 \<and> list_all is_space ws2
        \<and> segs_match (length t) segs body ws2)"
proof
  assume "ends (length t) (seq_regex ([Bol, Star True (InSet False space_ranges)] @ segs @ pattern_tail)) t \<noteq> {}"
  then obtain s1 s2 where s1: "s1 \<in> ends (length t) (seq_regex [Bol, Star True (InSet False space_ranges)]) t"
    and s2: "s2 \<in> ends (length t) (seq_regex segs) s1"
    and tl: "ends (length t) (seq_regex pattern_tail) s2 \<noteq> {}"
    unfolding ends_seq_append by blast
  obtain i where i: "i \<le> length (takeWhile is_space t)" "s1 = drop i t"
    using s1 by (auto simp: ends_Cat ends_simps ends_spaces)
  obtain body where body: "s1 = body @ s2" using ends_suffix[OF s2] by (auto simp: suffix_def)
  have "t = take i t @ body @ s2" using i(2) body by (metis append_take_drop_id)
  moreover have "list_all is_space (take i t)" using take_takeWhile_all[OF i(1)] .
  moreover have "list_all is_space s2" using tl by (simp add: tail_ends)
  moreover have "segs_match (length t) segs body s2" using s2 body by (simp add: segs_match_def)
  ultimately show "\<exists>ws1 body ws2. t = ws1 @ body @ ws2 \<and> list_all is_space ws1 \<and> list_all is_space ws2
        \<and> segs_match (length t) segs body ws2" by blast
next
  assume "\<exists>ws1 body ws2. t = ws1 @ body @ ws2 \<and> list_all is_space ws1 \<and> list_all is_space ws2
        \<and> segs_match (length t) segs body ws2"
  then obtain ws1 body ws2 where t: "t = ws1 @ body @ ws2" and w1: "list_all is_space ws1"
    and w2: "list_all is_space ws2" and m: "segs_match (length t) segs body ws2" by blast
  have "length ws1 \<le> length (takeWhile is_space t)"
    unfolding t using takeWhile_all_prefix[OF w1] .
  moreover have "drop (length ws1) t = body @ ws2" using t by simp
  ultimately have "body @ ws2 \<in> ends (length t) (Star True (InSet False space_ranges)) t"
    unfolding ends_spaces by (metis (mono_tags, lifting) mem_Collect_eq)
  then have "body @ ws2 \<in> ends (length t) (seq_regex [Bol, Star True (InSet False space_ranges)]) t"
    by (simp add: ends_Cat ends_simps)
  moreover have "ws2 \<in> ends (length t) (seq_regex segs) (body @ ws2)"
    using m by (simp add: segs_match_def)
  moreover have "ends (length t) (seq_regex pattern_tail) ws2 \<noteq> {}" using w2 by (simp add: tail_ends)
  ultimately show "ends (length t) (seq_regex ([Bol, Star True (InSet False space_ranges)] @ segs @ pattern_tail)) t \<noteq> {}"
    unfolding ends_seq_append by blast
qed

lemma accepts_ends:
  "accepts c l = (ends (length (line_text l)) (check_regex c) (line_text l) \<noteq> {})"
  by (auto simp: accepts_def re_match_def ends_def split: list.splits)

lemma literal_ends: "ends n (seq_regex (map Lit p)) (p @ rest) = {rest}"
proof (induction p)
  case Nil
  show ?case by (simp add: ends_simps)
next
  case (Cons c p)
  show ?case using Cons by (simp add: ends_seq_Cons ends_simps del: seq_regex.simps)
qed

lemma strip_decomp:
  "\<exists>ws1 ws2. t = ws1 @ strip t @ ws2 \<and> list_all is_space ws1 \<and> list_all is_space ws2"
proof -
  let ?m = "dropWhile is_space t"
  have 1: "t = takeWhile is_space t @ ?m" by simp
  have 2: "rev ?m = takeWhile is_space (rev ?m) @ dropWhile is_space (rev ?m)" by simp
  then have "?m = rev (dropWhile is_space (rev ?m)) @ rev (takeWhile is_space (rev ?m))"
    by (metis rev_append rev_rev_ident)
  then have "t = takeWhile is_space t @ strip t @ rev (takeWhile is_space (rev ?m))"
    using 1 by (simp add: strip_def)
  moreover have "list_all is_space (takeWhile is_space t)"
    by (simp add: list_all_iff) (meson set_takeWhileD)
  moreover have "list_all is_space (rev (takeWhile is_space (rev ?m)))"
    by (simp add: list_all_iff) (meson set_takeWhileD)
  ultimately show ?thesis by blast
qed

section \<open>Properties of the pattern parser\<close>

lemma based_cases:
  assumes "based st"
  obtains a i where "st = [Frame Top a i]" | f g rest where "st = f # g # rest" "based (g # rest)"
  using assms by (cases st rule: based.cases) auto

lemma push_item_rebase:
  "based st \<Longrightarrow> based (push_item it st) \<and> rebase kd fs (push_item it st) = push_item it (rebase kd fs st)"
  by (erule based_cases; cases "hd st") auto

lemma next_alt_rebase:
  "based st \<Longrightarrow> based (next_alt st) \<and> rebase kd fs (next_alt st) = next_alt (rebase kd fs st)"
  by (erule based_cases; cases "hd st") auto

lemma new_frame_rebase:
  "based st \<Longrightarrow> based (f # st) \<and> rebase kd fs (f # st) = f # rebase kd fs st"
  by (erule based_cases) auto

lemma repeat_step_rebase:
  "based st \<Longrightarrow> repeat_step q st = Parsed (m', st') \<Longrightarrow>
     based st' \<and> repeat_step q (rebase kd fs st) = Parsed (m', rebase kd fs st')"
  by (erule based_cases; cases "hd st") (auto split: parsed.splits)

lemma close_group_rebase:
  assumes "based st" "close_group st = Parsed (m', st')"
  shows "based st' \<and> close_group (rebase kd fs st) = Parsed (m', rebase kd fs st')"
  using assms(1)
proof (cases rule: based_cases)
  case (1 a i)
  then show ?thesis using assms(2) by simp
next
  case (2 f g rest)
  obtain k a i where f: "f = Frame k a i" by (cases f) auto
  show ?thesis
    using assms(2) 2 f push_item_rebase[OF 2(2)] by (cases k) auto
qed

lemma normal_step_rebase:
  assumes "based st" "normal_step st c = Parsed (m', st')"
  shows "based st' \<and> normal_step (rebase kd fs st) c = Parsed (m', rebase kd fs st')"
  using assms(2) push_item_rebase[OF assms(1)] next_alt_rebase[OF assms(1)]
    repeat_step_rebase[OF assms(1)] close_group_rebase[OF assms(1)] assms(1)
  unfolding normal_step_def by (auto split: if_splits)

lemma close_set_rebase:
  assumes "based st" "close_set neg acc st = Parsed (m', st')"
  shows "based st' \<and> close_set neg acc (rebase kd fs st) = Parsed (m', rebase kd fs st')"
  using assms(2) push_item_rebase[OF assms(1)] unfolding close_set_def by auto

lemma set_item_step_rebase:
  assumes "based st" "set_item_step neg acc st c = Parsed (m', st')"
  shows "based st' \<and> set_item_step neg acc (rebase kd fs st) c = Parsed (m', rebase kd fs st')"
  using assms close_set_rebase[OF assms(1)] unfolding set_item_step_def by (auto split: if_splits)

lemma set_range_step_rebase:
  assumes "based st" "set_range_step neg acc c1 c2 st = Parsed (m', st')"
  shows "based st' \<and> set_range_step neg acc c1 c2 (rebase kd fs st) = Parsed (m', rebase kd fs st')"
  using assms unfolding set_range_step_def by (auto split: parsed.splits)

lemma step_rebase:
  assumes "based st" "step (m, st) c = Parsed (m', st')"
  shows "based st' \<and> step (m, rebase kd fs st) c = Parsed (m', rebase kd fs st')"
proof (cases m)
  case Normal
  then show ?thesis using assms normal_step_rebase by simp
next
  case Escape
  then show ?thesis using assms push_item_rebase[OF assms(1)] by (auto split: parsed.splits)
next
  case Open
  then show ?thesis
    using assms new_frame_rebase[OF assms(1)] normal_step_rebase[of "Frame (Capturing None) [] [] # st"]
    by (auto split: if_splits)
next
  case OpenQ
  then show ?thesis using assms new_frame_rebase[OF assms(1)] by (auto split: if_splits)
next
  case OpenQP
  then show ?thesis using assms by (auto split: if_splits)
next
  case (GroupName nm)
  then show ?thesis using assms new_frame_rebase[OF assms(1)] by (auto split: if_splits)
next
  case SetOpen
  then show ?thesis using assms set_item_step_rebase[OF assms(1)] by (auto split: if_splits)
next
  case (SetItem neg acc)
  then show ?thesis using assms set_item_step_rebase[OF assms(1)] by auto
next
  case (SetEsc neg acc)
  then show ?thesis using assms by (auto split: parsed.splits)
next
  case (SetHave neg acc code1)
  then show ?thesis using assms set_item_step_rebase[OF assms(1)] by (auto split: if_splits)
next
  case (SetDash neg acc code1)
  then show ?thesis
    using assms close_set_rebase[OF assms(1)] set_range_step_rebase[OF assms(1)]
    by (auto split: if_splits)
next
  case (SetDashEsc neg acc code1)
  then show ?thesis using assms set_range_step_rebase[OF assms(1)] by (auto split: parsed.splits)
qed

lemma run_rebase:
  "based st \<Longrightarrow> run (m, st) s = Parsed (m', st') \<Longrightarrow>
     based st' \<and> run (m, rebase kd fs st) s = Parsed (m', rebase kd fs st')"
proof (induction s arbitrary: m st)
  case Nil
  then show ?case by simp
next
  case (Cons c cs)
  from Cons.prems(2) obtain m1 st1 where s1: "step (m, st) c = Parsed (m1, st1)"
    and r1: "run (m1, st1) cs = Parsed (m', st')"
    by (auto split: parsed.splits)
  have b1: "based st1" and s1': "step (m, rebase kd fs st) c = Parsed (m1, rebase kd fs st1)"
    using step_rebase[OF Cons.prems(1) s1] by simp_all
  show ?case using Cons.IH[OF b1 r1] s1' by simp
qed

lemma run_append:
  "run st (xs @ ys) = (case run st xs of Parsed st' \<Rightarrow> run st' ys | ReError \<Rightarrow> ReError
     | Unmodelled \<Rightarrow> Unmodelled)"
  by (induction xs arbitrary: st) (auto split: parsed.splits)

lemma escape_special_all:
  "list_all (\<lambda>c. escape_item c = Parsed (Atom (Lit c))) special_chars"
  by code_simp

lemma escape_special:
  "c \<in> set special_chars \<Longrightarrow> escape_item c = Parsed (Atom (Lit c))"
  using escape_special_all by (simp add: list_all_iff)

lemma normal_plain:
  "c \<notin> set special_chars \<Longrightarrow> normal_step st c = Parsed (Normal, push_item (Atom (Lit c)) st)"
  unfolding special_chars_def BS_def
  by (auto simp: normal_step_def BS_def)

lemma run_escaped_char:
  "run (Normal, st) (if c \<in> set special_chars then [BS, c] else [c])
     = Parsed (Normal, push_item (Atom (Lit c)) st)"
proof (cases "c \<in> set special_chars")
  case True
  have "normal_step st BS = Parsed (Escape, st)" by (simp add: normal_step_def)
  then show ?thesis using True by (simp add: escape_special)
next
  case False
  then show ?thesis by (simp add: normal_plain)
qed

lemma run_re_escape:
  "run (Normal, Frame kd a i # fs) (re_escape p)
     = Parsed (Normal, Frame kd a (rev (map (\<lambda>c. Atom (Lit c)) p) @ i) # fs)"
proof (induction p arbitrary: i)
  case Nil
  show ?case by (simp add: re_escape_def)
next
  case (Cons c p)
  have "re_escape (c # p) = (if c \<in> set special_chars then [BS, c] else [c]) @ re_escape p"
    by (simp add: re_escape_def)
  then show ?case
    using Cons[of "Atom (Lit c) # i"] run_escaped_char[of "Frame kd a i # fs" c]
    by (simp add: run_append del: run.simps)
qed

lemma run_open_group:
  "run (Normal, st) ''(?:'' = Parsed (Normal, Frame NonCapturing [] [] # st)"
  by (simp add: normal_step_def BS_def)

lemma frame_regex_kind: "frame_regex (Frame kd a i) = frame_regex (Frame kd' a i)"
  by simp

lemma run_wrapped_literal:
  "run (Normal, Frame kd a i # fs) (wrap_group (re_escape p))
     = Parsed (Normal, Frame kd a (Atom (seq_regex (map Lit p)) # i) # fs)"
proof -
  have "run (Normal, Frame NonCapturing [] [] # Frame kd a i # fs) (re_escape p)
      = Parsed (Normal, Frame NonCapturing [] (rev (map (\<lambda>c. Atom (Lit c)) p)) # Frame kd a i # fs)"
    using run_re_escape[of NonCapturing "[]" "[]" "Frame kd a i # fs" p] by simp
  moreover have "map item_regex (map (\<lambda>c. Atom (Lit c)) p) = map Lit p" by simp
  ultimately show ?thesis
    unfolding wrap_group_def
    apply (simp only: run_append run_open_group parsed.case)
    apply (simp add: normal_step_def BS_def rev_map comp_def)
    done
qed

lemma run_wrapped_regex:
  assumes "re_compile s = Parsed r"
  shows "run (Normal, Frame kd a i # fs) (wrap_group s)
     = Parsed (Normal, Frame kd a (Atom r # i) # fs)"
proof -
  obtain m st where r0: "run (Normal, [Frame Top [] []]) s = Parsed (m, st)"
    and f0: "finish_parse (m, st) = Parsed r"
    using assms by (auto simp: re_compile_def split: parsed.splits)
  obtain al it where st: "m = Normal" "st = [Frame Top al it]"
    and r: "r = frame_regex (Frame Top al it)"
    using f0 by (cases "(m, st)" rule: finish_parse.cases) (auto simp: Let_def split: if_splits)
  have "run (Normal, rebase NonCapturing (Frame kd a i # fs) [Frame Top [] []]) s
      = Parsed (Normal, rebase NonCapturing (Frame kd a i # fs) [Frame Top al it])"
    using run_rebase[of "[Frame Top [] []]" Normal s Normal "[Frame Top al it]"] r0 st by simp
  then have "run (Normal, Frame NonCapturing [] [] # Frame kd a i # fs) s
      = Parsed (Normal, Frame NonCapturing al it # Frame kd a i # fs)" by simp
  then show ?thesis
    unfolding wrap_group_def
    apply (simp only: run_append run_open_group parsed.case)
    apply (simp add: normal_step_def BS_def r)
    done
qed

lemma pieces_loop_Inr:
  "pieces_loop l ev acc ps = Inr rs \<Longrightarrow> rs = acc @ piece_strings ev ps \<and> spans_compile ev ps"
proof (induction ps arbitrary: ev acc)
  case Nil
  then show ?case by simp
next
  case (Cons p ps)
  show ?case
  proof (cases ev)
    case True
    then show ?thesis using Cons.prems Cons.IH[of False "acc @ [re_escape p]"] by simp
  next
    case False
    then obtain r where r: "re_compile p = Parsed r"
      using Cons.prems by (auto split: parsed.splits)
    then show ?thesis using False Cons.prems Cons.IH[of True "acc @ [p]"] by simp
  qed
qed

lemma pieces_loop_literal: "pieces_loop l True [] [p] = Inr [re_escape p]"
  by simp

lemma run_segments:
  "spans_compile ev ps \<Longrightarrow>
   run (Normal, Frame kd a i # fs) (concat (map wrap_group (piece_strings ev ps)))
     = Parsed (Normal, Frame kd a (rev (map Atom (segment_regexes ev ps)) @ i) # fs)"
proof (induction ps arbitrary: ev i)
  case Nil
  show ?case by simp
next
  case (Cons p ps)
  have rest: "run (Normal, Frame kd a j # fs)
        (concat (map wrap_group (piece_strings (\<not> ev) ps)))
     = Parsed (Normal, Frame kd a (rev (map Atom (segment_regexes (\<not> ev) ps)) @ j) # fs)" for j
    using Cons.IH[of "\<not> ev" j] Cons.prems by simp
  show ?case
  proof (cases ev)
    case True
    show ?thesis
      using True rest[of "Atom (seq_regex (map Lit p)) # i"]
      by (simp add: run_append run_wrapped_literal)
  next
    case False
    then obtain r where r: "re_compile p = Parsed r" using Cons.prems by auto
    show ?thesis
      using False rest[of "Atom r # i"] r
      by (simp add: run_append run_wrapped_regex[OF r])
  qed
qed

lemma run_head:
  "run (Normal, [Frame Top [] []]) anchor_head
     = Parsed (Normal, [Frame Top [] [Fresh QStar (InSet False space_ranges), Anchor Bol]])"
  by (simp add: anchor_head_def normal_step_def BS_def escape_item_def)

lemma run_tail:
  "run (Normal, Frame kd a i # fs) anchor_tail
     = Parsed (Normal, Frame kd a (Anchor Eol # Fresh QOpt (Lit NL) # Fresh QStar (InSet False space_ranges) # i) # fs)"
  by (simp add: anchor_tail_def normal_step_def BS_def escape_item_def control_escape_def NL_def)

lemma run_full_pattern:
  assumes "spans_compile True ps"
  shows "run (Normal, [Frame Top [] []]) (full_pattern (piece_strings True ps))
     = Parsed (Normal, [Frame Top []
         (Anchor Eol # Fresh QOpt (Lit NL) # Fresh QStar (InSet False space_ranges)
          # rev (map Atom (segment_regexes True ps))
          @ [Fresh QStar (InSet False space_ranges), Anchor Bol])])"
  by (simp add: full_pattern_def run_append run_head run_segments[OF assms] run_tail)

lemma map_item_regex_Atom: "map item_regex (map Atom rs) = rs"
  by (induction rs) auto

lemma compile_shape:
  assumes "spans_compile True ps" "re_compile (full_pattern (piece_strings True ps)) = Parsed R"
  shows "R = seq_regex ([Bol, Star True (InSet False space_ranges)] @ segment_regexes True ps
               @ pattern_tail)"
  using assms(2) unfolding re_compile_def run_full_pattern[OF assms(1)]
  by (simp add: Let_def pattern_tail_def rev_map comp_def split: if_splits)

lemma parse_regex:
  assumes "CheckCmd_parse line checktype = Inr P"
  shows "check_regex P = seq_regex ([Bol, Star True (InSet False space_ranges)]
            @ segment_regexes True (re_split bracket_re (line_text line)) @ pattern_tail)"
proof -
  let ?ps = "re_split bracket_re (line_text line)"
  obtain rs where rs: "pieces_loop line True [] ?ps = Inr rs"
    using assms by (auto simp: CheckCmd_parse_def Let_def split: sum.splits)
  have p: "rs = piece_strings True ?ps" "spans_compile True ?ps"
    using pieces_loop_Inr[OF rs] by simp_all
  have "re_compile (full_pattern rs) = Parsed (check_regex P)"
    using assms rs by (auto simp: CheckCmd_parse_def Let_def split: parsed.splits)
  then show ?thesis using compile_shape[OF p(2)] p(1) by simp
qed

lemma group_names_seq: "group_names (seq_regex rs) = concat (map group_names rs)"
  by (induction rs rule: seq_regex.induct) auto

lemma concat_map_Nil: "concat (map (\<lambda>x. []) xs) = []"
  by (induction xs) auto

lemma literal_parses:
  assumes "re_split bracket_re (line_text line) = [line_text line]"
  shows "\<exists>Q. CheckCmd_parse line checktype = Inr Q"
proof -
  let ?p = "line_text line"
  have sc: "spans_compile True [?p]" by simp
  have "re_compile (full_pattern (piece_strings True [?p])) \<noteq> ReError
      \<and> re_compile (full_pattern (piece_strings True [?p])) \<noteq> Unmodelled"
    unfolding re_compile_def run_full_pattern[OF sc]
    by (simp add: Let_def group_names_seq comp_def rev_map concat_map_Nil)
  then obtain R where "re_compile (full_pattern [re_escape ?p]) = Parsed R"
    by (cases "re_compile (full_pattern (piece_strings True [?p]))") auto
  then show ?thesis using assms by (simp add: CheckCmd_parse_def)
qed

text \<open>
  C5. A compiled pattern is anchored to the whole line: it accepts a line exactly when
  the line is whitespace, then a text that the segments of the pattern match one after
  the other, then whitespace (a line terminator is whitespace), and nothing else. In
  particular a payload without a span compiles, and its pattern accepts every line
  that is the payload once the whitespace around it is stripped.
\<close>

theorem whole_line_anchoring:
  "(CheckCmd_parse line checktype = Inr P \<longrightarrow>
      accepts P l =
        (\<exists>ws1 body ws2. line_text l = ws1 @ body @ ws2 \<and> list_all is_space ws1
           \<and> list_all is_space ws2
           \<and> segs_match (length (line_text l))
                 (segment_regexes True (re_split bracket_re (line_text line))) body ws2))
   \<and> (re_split bracket_re (line_text line) = [line_text line] \<longrightarrow>
        (\<exists>Q. CheckCmd_parse line checktype = Inr Q
           \<and> (\<forall>l'. strip (line_text l') = line_text line \<longrightarrow> accepts Q l')))"
proof (intro conjI impI)
  assume a: "CheckCmd_parse line checktype = Inr P"
  show "accepts P l =
        (\<exists>ws1 body ws2. line_text l = ws1 @ body @ ws2 \<and> list_all is_space ws1
           \<and> list_all is_space ws2
           \<and> segs_match (length (line_text l))
                 (segment_regexes True (re_split bracket_re (line_text line))) body ws2)"
    unfolding accepts_ends parse_regex[OF a] by (rule anchored_shape)
next
  assume lit: "re_split bracket_re (line_text line) = [line_text line]"
  obtain Q where Q: "CheckCmd_parse line checktype = Inr Q"
    using literal_parses[OF lit] by blast
  have "accepts Q l'" if s: "strip (line_text l') = line_text line" for l'
  proof -
    obtain ws1 ws2 where d: "line_text l' = ws1 @ strip (line_text l') @ ws2"
      "list_all is_space ws1" "list_all is_space ws2"
      using strip_decomp[of "line_text l'"] by blast
    have "segs_match (length (line_text l')) [seq_regex (map Lit (line_text line))]
            (line_text line) ws2"
      by (simp add: segs_match_def literal_ends)
    moreover have "segment_regexes True (re_split bracket_re (line_text line))
        = [seq_regex (map Lit (line_text line))]"
      using lit by simp
    ultimately have "\<exists>ws1 body ws2. line_text l' = ws1 @ body @ ws2 \<and> list_all is_space ws1
           \<and> list_all is_space ws2
           \<and> segs_match (length (line_text l'))
                 (segment_regexes True (re_split bracket_re (line_text line))) body ws2"
      using d s by metis
    then show ?thesis
      unfolding accepts_ends parse_regex[OF Q] anchored_shape .
  qed
  then show "\<exists>Q. CheckCmd_parse line checktype = Inr Q
           \<and> (\<forall>l'. strip (line_text l') = line_text line \<longrightarrow> accepts Q l')"
    using Q by blast
qed

theorem whole_line_anchoring_witness:
  "(\<exists>Q. CheckCmd_parse (Line_init ''hello'' 1 ''t'') ''CHECK'' = Inr Q
        \<and> accepts Q (Line_init (''  hello '' @ [NL]) 1 ''stdout''))
   \<and> (\<exists>ws1 body ws2. ''  val=42 '' = ws1 @ body @ ws2 \<and> list_all is_space ws1
        \<and> list_all is_space ws2
        \<and> segs_match (length ''  val=42 '')
              (segment_regexes True (re_split bracket_re ''val={{[0-9]+}}'')) body ws2)"
proof
  have s: "re_split bracket_re (line_text (Line_init ''hello'' 1 ''t''))
      = [line_text (Line_init ''hello'' 1 ''t'')]" by code_simp
  have t: "strip (line_text (Line_init (''  hello '' @ [NL]) 1 ''stdout''))
      = line_text (Line_init ''hello'' 1 ''t'')" by code_simp
  show "\<exists>Q. CheckCmd_parse (Line_init ''hello'' 1 ''t'') ''CHECK'' = Inr Q
        \<and> accepts Q (Line_init (''  hello '' @ [NL]) 1 ''stdout'')"
    using whole_line_anchoring[of "Line_init ''hello'' 1 ''t''" "''CHECK''"] s t by blast
next
  let ?Q = "\<lparr>check_line = Line_init ''val={{[0-9]+}}'' 1 ''t'', check_type = ''CHECK'',
     check_regex = compiled (re_compile (full_pattern [''val'' @ [BS] @ ''='', ''[0-9]+'', []]))\<rparr>"
  have p: "CheckCmd_parse (Line_init ''val={{[0-9]+}}'' 1 ''t'') ''CHECK'' = Inr ?Q" by code_simp
  have a: "accepts ?Q (Line_init ''  val=42 '' 1 ''stdout'')" by code_simp
  have l: "line_text (Line_init ''  val=42 '' 1 ''stdout'') = ''  val=42 ''"
    "line_text (Line_init ''val={{[0-9]+}}'' 1 ''t'') = ''val={{[0-9]+}}''"
    by (simp_all add: Line_init_def)
  show "\<exists>ws1 body ws2. ''  val=42 '' = ws1 @ body @ ws2 \<and> list_all is_space ws1
        \<and> list_all is_space ws2
        \<and> segs_match (length ''  val=42 '')
              (segment_regexes True (re_split bracket_re ''val={{[0-9]+}}'')) body ws2"
    using whole_line_anchoring[of "Line_init ''val={{[0-9]+}}'' 1 ''t''" "''CHECK''" ?Q
        "Line_init ''  val=42 '' 1 ''stdout''"] p a
    unfolding l by blast
qed

end
